theory Spec2Isabelle
  imports Main
begin

section \<open>Strings and the string operations the streamer uses\<close>

text \<open>
  A \<open>std::string\<close> is a list of bytes. The operations below are the members of
  \<open>std::string\<close> that \<open>grbl_streamer.cpp\<close> calls; a position that C++ reports as
  \<open>npos\<close> is \<open>None\<close>.
\<close>

abbreviation NL :: char where "NL \<equiv> CHR 0x0A"
abbreviation CR :: char where "CR \<equiv> CHR 0x0D"
abbreviation TAB :: char where "TAB \<equiv> CHR 0x09"

text \<open>Membership in the character set \<open>" \t\r\n"\<close> of lines 246, 287 and 291.\<close>

definition is_ws :: "char \<Rightarrow> bool" where
  "is_ws c = (c = CHR '' '' \<or> c = TAB \<or> c = CR \<or> c = NL)"

text \<open>\<open>s.find(c)\<close>, \<open>s.find_first_not_of(set)\<close>: the first index whose character satisfies \<open>P\<close>.\<close>

fun find_first :: "(char \<Rightarrow> bool) \<Rightarrow> string \<Rightarrow> nat option" where
  "find_first P [] = None"
| "find_first P (c # cs) = (if P c then Some 0 else map_option Suc (find_first P cs))"

text \<open>\<open>s.find_last_not_of(set)\<close>: the last index whose character satisfies \<open>P\<close>.\<close>

fun find_last :: "(char \<Rightarrow> bool) \<Rightarrow> string \<Rightarrow> nat option" where
  "find_last P [] = None"
| "find_last P (c # cs) =
     (case find_last P cs of
        Some i \<Rightarrow> Some (Suc i)
      | None \<Rightarrow> if P c then Some 0 else None)"

text \<open>\<open>s.find(pat)\<close> for a string pattern: the first index at which \<open>pat\<close> starts.\<close>

fun str_find :: "string \<Rightarrow> string \<Rightarrow> nat option" where
  "str_find [] pat = (if pat = [] then Some 0 else None)"
| "str_find (c # cs) pat =
     (if take (length pat) (c # cs) = pat then Some 0
      else map_option Suc (str_find cs pat))"

text \<open>\<open>std::tolower\<close> in the "C" locale (the program never calls \<open>setlocale\<close>).\<close>

definition tolower :: "char \<Rightarrow> char" where
  "tolower c =
     (if 65 \<le> (of_char c :: nat) \<and> (of_char c :: nat) \<le> 90
      then char_of ((of_char c :: nat) + 32) else c)"

text \<open>\<open>operator<<\<close> for unsigned and signed integers: decimal digits.\<close>

fun show_nat :: "nat \<Rightarrow> string" where
  "show_nat n =
     (if n < 10 then [char_of (48 + n)]
      else show_nat (n div 10) @ [char_of (48 + n mod 10)])"

declare show_nat.simps [simp del]

definition show_int :: "int \<Rightarrow> string" where
  "show_int i = (if i < 0 then CHR ''-'' # show_nat (nat (- i)) else show_nat (nat i))"

section \<open>Machine integers\<close>

text \<open>
  \<open>available\<close> is an \<open>int\<close> (32 bits), \<open>len\<close> a \<open>size_t\<close> (64 bits). In
  \<open>len > available\<close>, \<open>available -= len\<close> and \<open>available += len\<close> the \<open>int\<close> is
  converted to \<open>size_t\<close>, the arithmetic is done modulo \<open>2 ^ 64\<close>, and the result is
  converted back to \<open>int\<close> (two's complement).
\<close>

definition size_t_of_int :: "int \<Rightarrow> nat" where
  "size_t_of_int a = nat (a mod 2 ^ 64)"

definition int_of_size_t :: "nat \<Rightarrow> int" where
  "int_of_size_t n = (int n + 2 ^ 31) mod 2 ^ 32 - 2 ^ 31"

definition size_t_sub :: "nat \<Rightarrow> nat \<Rightarrow> nat" where
  "size_t_sub a b = nat ((int a - int b) mod 2 ^ 64)"

definition size_t_add :: "nat \<Rightarrow> nat \<Rightarrow> nat" where
  "size_t_add a b = nat ((int a + int b) mod 2 ^ 64)"

section \<open>The G-code file: \<open>std::ifstream\<close>\<close>

text \<open>
  The stream is its bytes, the read position and the two state bits the loop depends on.
  \<open>good()\<close> holds when neither bit is set.
\<close>

record ifstream =
  content :: string
  pos :: nat
  eofbit :: bool
  failbit :: bool

definition open_file :: "string \<Rightarrow> ifstream" where
  "open_file bytes = \<lparr>content = bytes, pos = 0, eofbit = False, failbit = False\<rparr>"

text \<open>
  \<open>std::getline(gcode_file, line)\<close>. The sentry fails, setting \<open>failbit\<close>, when the
  stream is not good. Otherwise characters are extracted up to and including the next
  newline, which is not stored; reaching the end of the bytes sets \<open>eofbit\<close>; extracting
  nothing at all sets \<open>failbit\<close>. The result is \<open>None\<close> when the stream converts to
  \<open>false\<close> afterwards.
\<close>

definition getline :: "ifstream \<Rightarrow> ifstream \<times> string option" where
  "getline f =
     (if eofbit f \<or> failbit f then (f\<lparr>failbit := True\<rparr>, None)
      else
        let rest = drop (pos f) (content f) in
        if rest = [] then (f\<lparr>eofbit := True, failbit := True\<rparr>, None)
        else
          let l = takeWhile (\<lambda>c. c \<noteq> NL) rest in
          if length l < length rest
          then (f\<lparr>pos := pos f + length l + 1\<rparr>, Some l)
          else (f\<lparr>pos := pos f + length l, eofbit := True\<rparr>, Some l))"

text \<open>
  \<open>gcode_file.seekg(off, std::ios::cur)\<close> (C++11): clears \<open>eofbit\<close>; then, unless the
  stream has failed, moves the position by \<open>off\<close>; a position before the first byte makes
  the seek fail, which sets \<open>failbit\<close>.
\<close>

definition seekg_cur :: "ifstream \<Rightarrow> int \<Rightarrow> ifstream" where
  "seekg_cur f off =
     (let f1 = f\<lparr>eofbit := False\<rparr> in
      if failbit f1 then f1
      else if int (pos f1) + off < 0 then f1\<lparr>failbit := True\<rparr>
      else f1\<lparr>pos := nat (int (pos f1) + off)\<rparr>)"

section \<open>The serial device\<close>

text \<open>
  What one pass of the loop of \<open>readSerialLine\<close> can observe: \<open>select\<close> failing (\<open>-1\<close>),
  \<open>select\<close> returning \<open>0\<close>, or \<open>select\<close> reporting the descriptor readable followed by
  the outcome of \<open>read(fd, &buf, 1)\<close>: one byte, \<open>0\<close> (end of file) or a negative result.
  The device's behaviour is the list of these observations; when the list is used up
  nothing ever arrives and \<open>select\<close>, called with no timeout, never returns. The set
  passed to \<open>select\<close> holds the one descriptor, so a positive result means that
  \<open>FD_ISSET\<close> holds.
\<close>

datatype rd_event = SelectError | SelectZero | ReadByte char | ReadEof | ReadError

text \<open>
  \<open>readSerialLine(fd, verbose)\<close>, lines 48-83. The result is the line, the messages
  \<open>perror\<close> printed and the observations left; \<open>None\<close> when the call never returns.
  The parameter \<open>verbose\<close> is not used by the source.
\<close>

fun readSerialLine_loop :: "string \<Rightarrow> rd_event list \<Rightarrow> (string \<times> string list \<times> rd_event list) option" where
  "readSerialLine_loop line [] = None"
| "readSerialLine_loop line (SelectError # es) = Some (line, [''select''], es)"
| "readSerialLine_loop line (SelectZero # es) = Some (line, [], es)"
| "readSerialLine_loop line (ReadByte buf # es) =
     (if buf = NL then Some (line @ [buf], [], es)
      else readSerialLine_loop (line @ [buf]) es)"
| "readSerialLine_loop line (ReadEof # es) = Some (line, [], es)"
| "readSerialLine_loop line (ReadError # es) = Some (line, [''read''], es)"

definition readSerialLine :: "rd_event list \<Rightarrow> bool \<Rightarrow> (string \<times> string list \<times> rd_event list) option" where
  "readSerialLine fd verbose = readSerialLine_loop [] fd"

section \<open>The state of the streaming loop\<close>

text \<open>
  The variables of \<open>main\<close> that are live in lines 230-331, together with the two sides of
  the serial connection and the two output streams. \<open>serial_tx\<close> records every call of
  \<open>write\<close>: the bytes passed and the value returned. \<open>cerr_text\<close> is a list of messages
  (the operating system's error text that \<open>perror\<close> appends is not modelled). Both output
  streams start empty at line 230: what \<open>main\<close> printed while it opened the device and
  the file is not included.
\<close>

record loop_state =
  gcode_file :: ifstream
  available :: int
  pending_lengths :: "nat list"
  return_code :: int
  serial_rx :: "rd_event list"
  serial_tx :: "(string \<times> int) list"
  cout_text :: string
  cerr_text :: "string list"

text \<open>The result of \<open>write(fd, buf, n)\<close> is decided by the device: a function of the number of earlier calls and of the bytes.\<close>

type_synonym write_fn = "nat \<Rightarrow> string \<Rightarrow> int"

definition RX_BUFFER_SIZE :: int where
  "RX_BUFFER_SIZE = 127"

definition init_state :: "string \<Rightarrow> rd_event list \<Rightarrow> loop_state" where
  "init_state bytes rx =
     \<lparr>gcode_file = open_file bytes, available = RX_BUFFER_SIZE, pending_lengths = [],
      return_code = 0, serial_rx = rx, serial_tx = [], cout_text = [], cerr_text = []\<rparr>"

text \<open>\<open>if (verbose) std::cout << ...\<close>\<close>

definition say :: "bool \<Rightarrow> string \<Rightarrow> loop_state \<Rightarrow> loop_state" where
  "say verbose txt st = (if verbose then st\<lparr>cout_text := cout_text st @ txt\<rparr> else st)"

datatype flow = Continue | Break | Hang

lemma say_fields [simp]:
  "gcode_file (say verbose txt st) = gcode_file st"
  "available (say verbose txt st) = available st"
  "pending_lengths (say verbose txt st) = pending_lengths st"
  "return_code (say verbose txt st) = return_code st"
  "serial_rx (say verbose txt st) = serial_rx st"
  "serial_tx (say verbose txt st) = serial_tx st"
  "cerr_text (say verbose txt st) = cerr_text st"
  by (simp_all add: say_def)

section \<open>The fill phase: lines 237-270\<close>

text \<open>
  Lines 239-247: the raw line is dropped (\<open>continue\<close>, here \<open>None\<close>) when it is empty, or
  when it is empty after the comment is cut at the first \<open>;\<close> and trailing white space is
  erased. \<open>find_last_not_of\<close> returning \<open>npos\<close> makes \<open>npos + 1 = 0\<close>, so everything is
  erased.
\<close>

definition clean_line :: "string \<Rightarrow> string option" where
  "clean_line raw =
     (if raw = [] then None
      else
        let line = (case find_first (\<lambda>c. c = CHR '';'') raw of
                      Some comment_pos \<Rightarrow> take comment_pos raw
                    | None \<Rightarrow> raw);
            line = take (case find_last (\<lambda>c. \<not> is_ws c) line of
                           Some i \<Rightarrow> i + 1
                         | None \<Rightarrow> 0) line
        in if line = [] then None else Some line)"

text \<open>
  Lines 249-269 for a cleaned line: hold it back by seeking backwards when it does not
  fit, otherwise write it and account for it.
\<close>

definition send_or_hold :: "bool \<Rightarrow> write_fn \<Rightarrow> loop_state \<Rightarrow> string \<Rightarrow> flow \<times> loop_state" where
  "send_or_hold verbose wr st line =
     (let len = length line + 1 in
      if len > size_t_of_int (available st)
      then (Break, st\<lparr>gcode_file := seekg_cur (gcode_file st) (- int (length line + 1))\<rparr>)
      else
        let send_line = line @ [NL];
            st1 = say verbose (''Sending: '' @ line @ '' (len: '' @ show_nat len
                     @ '', available: '' @ show_int (available st) @ '')'' @ [NL]) st;
            n = wr (length (serial_tx st1)) send_line;
            st2 = st1\<lparr>serial_tx := serial_tx st1 @ [(send_line, n)]\<rparr>
        in if n \<noteq> int (length send_line)
           then (Break, st2\<lparr>cerr_text := cerr_text st2 @ [''Error writing to serial port.''],
                            return_code := 1\<rparr>)
           else (Continue, st2\<lparr>available := int_of_size_t (size_t_sub (size_t_of_int (available st2)) len),
                               pending_lengths := pending_lengths st2 @ [len]\<rparr>))"

definition fill_body :: "bool \<Rightarrow> write_fn \<Rightarrow> loop_state \<Rightarrow> string \<Rightarrow> flow \<times> loop_state" where
  "fill_body verbose wr st raw =
     (case clean_line raw of
        None \<Rightarrow> (Continue, st)
      | Some line \<Rightarrow> send_or_hold verbose wr st line)"

text \<open>The remaining bytes of the file: what the inner loop's progress is measured by.\<close>

definition remaining :: "ifstream \<Rightarrow> nat" where
  "remaining f = length (content f) - pos f"

lemma getline_Some_remaining:
  "getline f = (f', Some raw) \<Longrightarrow> remaining f' < remaining f"
  by (auto simp: getline_def remaining_def Let_def split: if_splits)

lemma getline_Some_content:
  "getline f = (f', r) \<Longrightarrow> content f' = content f"
  by (auto simp: getline_def Let_def split: if_splits)

lemma send_or_hold_Continue_file:
  "send_or_hold verbose wr st line = (Continue, st') \<Longrightarrow> gcode_file st' = gcode_file st"
  by (auto simp: send_or_hold_def Let_def say_def split: if_splits)

lemma fill_body_Continue_file:
  "fill_body verbose wr st raw = (Continue, st') \<Longrightarrow> gcode_file st' = gcode_file st"
  by (auto simp: fill_body_def split: option.splits dest: send_or_hold_Continue_file)

text \<open>
  The inner \<open>while (available > 0 && std::getline(gcode_file, line))\<close>. \<open>getline\<close> is
  called only when \<open>available > 0\<close>.
\<close>

function fill_loop :: "bool \<Rightarrow> write_fn \<Rightarrow> loop_state \<Rightarrow> loop_state" where
  "fill_loop verbose wr st =
     (if available st > 0 then
        (case getline (gcode_file st) of
           (f, None) \<Rightarrow> st\<lparr>gcode_file := f\<rparr>
         | (f, Some raw) \<Rightarrow>
             (case fill_body verbose wr (st\<lparr>gcode_file := f\<rparr>) raw of
                (Continue, st') \<Rightarrow> fill_loop verbose wr st'
              | (_, st') \<Rightarrow> st'))
      else st)"
  by pat_completeness auto
termination
  apply (relation "measure (\<lambda>(verbose, wr, st). remaining (gcode_file st))")
   apply simp
  apply (auto dest!: getline_Some_remaining [OF sym] fill_body_Continue_file [OF sym])
  done

declare fill_loop.simps [simp del]

section \<open>The acknowledgment phase: lines 277-316\<close>

text \<open>
  Lines 287-294. Leading white space is cut only when some other character exists, and
  likewise trailing white space: a response of white space alone is left as it is.
\<close>

definition trim_response :: "string \<Rightarrow> string" where
  "trim_response response =
     (let response = (case find_first (\<lambda>c. \<not> is_ws c) response of
                        Some start \<Rightarrow> drop start response
                      | None \<Rightarrow> response)
      in case find_last (\<lambda>c. \<not> is_ws c) response of
           Some e \<Rightarrow> take (e + 1) response
         | None \<Rightarrow> response)"

text \<open>Lines 296-301: the test \<open>lower_response.find("ok") != std::string::npos\<close>.\<close>

definition is_ok :: "string \<Rightarrow> bool" where
  "is_ok response = (str_find (map tolower (trim_response response)) ''ok'' \<noteq> None)"

text \<open>Lines 302-309: the oldest length leaves the queue and is given back.\<close>

definition credit :: "bool \<Rightarrow> loop_state \<Rightarrow> loop_state" where
  "credit verbose st =
     (case pending_lengths st of
        [] \<Rightarrow> st
      | len # rest \<Rightarrow>
          let st' = st\<lparr>pending_lengths := rest,
                      available := int_of_size_t (size_t_add (size_t_of_int (available st)) len)\<rparr>
          in say verbose (''Received ok, freed '' @ show_nat len @ '' bytes (available now: ''
               @ show_int (available st') @ '')'' @ [NL]) st')"

text \<open>
  Lines 277-316, entered with a non-empty queue: wait for one response and classify it.
  \<open>Hang\<close> is the call of \<open>readSerialLine\<close> that never returns.
\<close>

definition await_response :: "bool \<Rightarrow> loop_state \<Rightarrow> flow \<times> loop_state" where
  "await_response verbose st =
     (let st1 = say verbose (''Waiting for response... (pending: ''
                   @ show_nat (length (pending_lengths st)) @ '', available: ''
                   @ show_int (available st) @ '')'' @ [NL]) st
      in case readSerialLine (serial_rx st1) verbose of
           None \<Rightarrow> (Hang, st1)
         | Some (response, perr, rx) \<Rightarrow>
             let st2 = st1\<lparr>serial_rx := rx, cerr_text := cerr_text st1 @ perr\<rparr>;
                 st3 = say verbose response st2
             in if is_ok response then
                  let st4 = credit verbose st3
                  in if return_code st4 \<noteq> 0 then (Break, st4) else (Continue, st4)
                else (Break, st3\<lparr>cerr_text := cerr_text st3 @
                        [''GRBL error detected: '' @ trim_response response
                           @ '' Halting execution.'']\<rparr>))"

lemma readSerialLine_loop_shorter:
  "readSerialLine_loop line es = Some (response, perr, rx) \<Longrightarrow> length rx < length es"
proof (induction line es rule: readSerialLine_loop.induct)
  case (4 line buf es)
  then show ?case by (cases "buf = NL") auto
qed auto

lemma fill_body_serial_rx:
  "fill_body verbose wr st raw = (fl, st') \<Longrightarrow> serial_rx st' = serial_rx st"
  by (auto simp: fill_body_def send_or_hold_def Let_def split: option.splits if_splits)

lemma fill_loop_serial_rx:
  "serial_rx (fill_loop verbose wr st) = serial_rx st"
proof (induction verbose wr st rule: fill_loop.induct)
  case (1 verbose wr st)
  show ?case
  proof (cases "available st > 0")
    case False
    then show ?thesis by (simp add: fill_loop.simps)
  next
    case True
    obtain f r where g: "getline (gcode_file st) = (f, r)" by force
    show ?thesis
    proof (cases r)
      case None
      with True g show ?thesis by (simp add: fill_loop.simps [of verbose wr st])
    next
      case (Some raw)
      obtain fl st' where b: "fill_body verbose wr (st\<lparr>gcode_file := f\<rparr>) raw = (fl, st')"
        by force
      from b have rx: "serial_rx st' = serial_rx st"
        using fill_body_serial_rx by fastforce
      show ?thesis
      proof (cases fl)
        case Continue
        with 1 [OF True g [symmetric] Some b [symmetric]] True g Some b rx
        show ?thesis by (simp add: fill_loop.simps [of verbose wr st])
      qed (use True g Some b rx in \<open>simp_all add: fill_loop.simps [of verbose wr st]\<close>)
    qed
  qed
qed

lemma credit_serial_rx [simp]: "serial_rx (credit verbose st) = serial_rx st"
  by (simp add: credit_def Let_def split: list.splits)

lemma await_response_Continue_shorter:
  assumes "await_response verbose st = (Continue, st')"
  shows "length (serial_rx st') < length (serial_rx st)"
proof (cases "readSerialLine_loop [] (serial_rx st)")
  case None
  with assms show ?thesis
    by (simp add: await_response_def readSerialLine_def)
next
  case (Some t)
  obtain response perr rx where t: "t = (response, perr, rx)"
    by (cases t) auto
  from Some t have "length rx < length (serial_rx st)"
    by (auto dest: readSerialLine_loop_shorter)
  moreover from assms Some t have "serial_rx st' = rx"
    by (auto simp: await_response_def readSerialLine_def Let_def split: if_splits)
  ultimately show ?thesis by simp
qed

text \<open>
  The outer \<open>while (true)\<close>, lines 235-317. The result says whether the loop was left
  (\<open>Break\<close>) or is stuck in \<open>readSerialLine\<close> for ever (\<open>Hang\<close>).
\<close>

function main_loop :: "bool \<Rightarrow> write_fn \<Rightarrow> loop_state \<Rightarrow> flow \<times> loop_state" where
  "main_loop verbose wr st =
     (let st1 = fill_loop verbose wr st in
      if pending_lengths st1 = [] then (Break, st1)
      else
        (case await_response verbose st1 of
           (Continue, st2) \<Rightarrow> main_loop verbose wr st2
         | (fl, st2) \<Rightarrow> (fl, st2)))"
  by pat_completeness auto
termination
  apply (relation "measure (\<lambda>(verbose, wr, st). length (serial_rx st))")
   apply simp
  apply (auto dest!: await_response_Continue_shorter [OF sym] simp: fill_loop_serial_rx)
  done

declare main_loop.simps [simp del]

text \<open>
  Lines 230-331: the streaming part of \<open>main\<close>, from the opened file and the woken
  device to the \<open>return\<close>. \<open>(Break, st)\<close> is \<open>main\<close> returning \<open>return_code st\<close>;
  \<open>(Hang, st)\<close> is \<open>main\<close> never returning.
\<close>

definition stream :: "bool \<Rightarrow> write_fn \<Rightarrow> string \<Rightarrow> rd_event list \<Rightarrow> flow \<times> loop_state" where
  "stream verbose wr bytes rx =
     (case main_loop verbose wr (init_state bytes rx) of
        (Hang, st) \<Rightarrow> (Hang, st)
      | (_, st) \<Rightarrow>
          (Break, say verbose
             ((if return_code st = 0 then ''Streaming completed successfully.''
               else ''Streaming halted due to error.'') @ [NL]) st))"

section \<open>The Line Supplier of the specification\<close>

text \<open>
  The record the specification asks for, in its own words: everything from the first
  comment delimiter onward is stripped, trailing white space (CR included) is trimmed,
  and nothing is produced when the remainder is empty.
\<close>

definition command_record :: "string \<Rightarrow> string option" where
  "command_record raw =
     (let text = rev (dropWhile is_ws (rev (takeWhile (\<lambda>c. c \<noteq> CHR '';'') raw)))
      in if text = [] then None else Some text)"

lemma find_first_take:
  "(case find_first P s of Some p \<Rightarrow> take p s | None \<Rightarrow> s) = takeWhile (\<lambda>c. \<not> P c) s"
  by (induction s) (auto split: option.splits)

lemma find_last_None: "find_last P s = None \<longleftrightarrow> (\<forall>c\<in>set s. \<not> P c)"
  by (induction s) (auto split: option.splits)

lemma find_last_take:
  "take (case find_last P s of Some i \<Rightarrow> i + 1 | None \<Rightarrow> 0) s = rev (dropWhile (\<lambda>c. \<not> P c) (rev s))"
proof (induction s)
  case Nil
  show ?case by simp
next
  case (Cons c cs)
  show ?case
  proof (cases "find_last P cs")
    case None
    then have "\<forall>x\<in>set (rev cs). \<not> P x"
      by (simp add: find_last_None)
    then have "dropWhile (\<lambda>c. \<not> P c) (rev cs @ [c]) = dropWhile (\<lambda>c. \<not> P c) [c]"
      using dropWhile_append2 [of "rev cs" "\<lambda>c. \<not> P c" "[c]"] by blast
    with None show ?thesis by simp
  next
    case (Some i)
    then have "\<exists>x\<in>set (rev cs). P x"
      using find_last_None [of P cs] by auto
    then have "dropWhile (\<lambda>c. \<not> P c) (rev cs @ [c]) = dropWhile (\<lambda>c. \<not> P c) (rev cs) @ [c]"
      by (auto simp: dropWhile_append1)
    with Some Cons.IH show ?thesis by simp
  qed
qed

lemma clean_line_eq: "clean_line raw = command_record raw"
proof (cases "raw = []")
  case True
  then show ?thesis by (simp add: clean_line_def command_record_def)
next
  case False
  then show ?thesis
    unfolding clean_line_def command_record_def Let_def find_first_take find_last_take
    by simp
qed

lemma takeWhile_ws_comment:
  "takeWhile (\<lambda>c. c \<noteq> CHR '';'') (filter is_ws s @ rest) = filter is_ws s @ takeWhile (\<lambda>c. c \<noteq> CHR '';'') rest"
  by (induction s) (auto simp: is_ws_def)

lemma takeWhile_ws_only:
  "takeWhile (\<lambda>c. c \<noteq> CHR '';'') (filter is_ws s) = filter is_ws s"
  by (induction s) (auto simp: is_ws_def)

lemma command_record_blank: "command_record (filter is_ws s) = None"
  unfolding command_record_def Let_def takeWhile_ws_only by simp

lemma command_record_comment: "command_record (filter is_ws s @ CHR '';'' # rest) = None"
  unfolding command_record_def Let_def takeWhile_ws_comment by simp

text \<open>
  C9. For every raw line the fill phase computes exactly the record of the
  specification: the text before the first \<open>;\<close> with trailing white space (CR included)
  removed, and no record when that text is empty. A line of white space only and a line
  whose first character other than white space is \<open>;\<close> give no record; the line
  \<open>G1 X1 ; comment\<close> gives the record \<open>G1 X1\<close>; and a line without a record leaves
  the state of the loop untouched (nothing is sent, nothing is counted).
\<close>

theorem line_supplier_filter:
  "clean_line raw = command_record raw
   \<and> clean_line (filter is_ws s) = None
   \<and> clean_line (filter is_ws s @ CHR '';'' # rest) = None
   \<and> clean_line ''G1 X1 ; comment'' = Some ''G1 X1''
   \<and> fill_body verbose wr st raw =
       (case command_record raw of
          None \<Rightarrow> (Continue, st)
        | Some line \<Rightarrow> send_or_hold verbose wr st line)"
proof -
  have "clean_line ''G1 X1 ; comment'' = Some ''G1 X1''"
    by (simp add: clean_line_eq command_record_def is_ws_def)
  then show ?thesis
    by (simp add: clean_line_eq command_record_blank command_record_comment fill_body_def)
qed

section \<open>Buffer accounting\<close>

lemma size_t_of_int_nonneg: "0 \<le> a \<Longrightarrow> a < 2 ^ 31 \<Longrightarrow> size_t_of_int a = nat a"
  by (simp add: size_t_of_int_def)

lemma available_sub:
  assumes "0 \<le> a" "a < 2 ^ 31" "int len \<le> a"
  shows "int_of_size_t (size_t_sub (size_t_of_int a) len) = a - int len"
proof -
  have "size_t_sub (nat a) len = nat (a - int len)"
    using assms by (simp add: size_t_sub_def)
  then show ?thesis
    using assms by (simp add: size_t_of_int_nonneg int_of_size_t_def)
qed

lemma available_add:
  assumes "0 \<le> a" "a + int len < 2 ^ 31"
  shows "int_of_size_t (size_t_add (size_t_of_int a) len) = a + int len"
proof -
  have "size_t_add (nat a) len = nat (a + int len)"
    using assms by (simp add: size_t_add_def)
  then show ?thesis
    using assms by (simp add: size_t_of_int_nonneg int_of_size_t_def)
qed

text \<open>
  The loop as a transition system: control is at the head of the inner loop (\<open>Filling\<close>),
  at the test of line 273 (\<open>Awaiting\<close>), or behind the outer loop (\<open>Exited\<close>). A
  configuration without successor is \<open>Exited\<close>, or waits for a response that never comes.
\<close>

datatype phase = Filling | Awaiting | Exited

type_synonym config = "phase \<times> loop_state"

fun next_config :: "bool \<Rightarrow> write_fn \<Rightarrow> config \<Rightarrow> config option" where
  "next_config verbose wr (Filling, st) =
     (if available st > 0 then
        (case getline (gcode_file st) of
           (f, None) \<Rightarrow> Some (Awaiting, st\<lparr>gcode_file := f\<rparr>)
         | (f, Some raw) \<Rightarrow>
             (case fill_body verbose wr (st\<lparr>gcode_file := f\<rparr>) raw of
                (Continue, st') \<Rightarrow> Some (Filling, st')
              | (_, st') \<Rightarrow> Some (Awaiting, st')))
      else Some (Awaiting, st))"
| "next_config verbose wr (Awaiting, st) =
     (if pending_lengths st = [] then Some (Exited, st)
      else
        (case await_response verbose st of
           (Continue, st') \<Rightarrow> Some (Filling, st')
         | (Break, st') \<Rightarrow> Some (Exited, st')
         | (Hang, st') \<Rightarrow> None))"
| "next_config verbose wr (Exited, st) = None"

inductive reaches :: "bool \<Rightarrow> write_fn \<Rightarrow> config \<Rightarrow> config \<Rightarrow> bool"
  for verbose :: bool and wr :: write_fn and c0 :: config where
  start: "reaches verbose wr c0 c0"
| step: "reaches verbose wr c0 c \<Longrightarrow> next_config verbose wr c = Some c' \<Longrightarrow> reaches verbose wr c0 c'"

definition reachable :: "bool \<Rightarrow> write_fn \<Rightarrow> string \<Rightarrow> rd_event list \<Rightarrow> config \<Rightarrow> bool" where
  "reachable verbose wr bytes rx c = reaches verbose wr (Filling, init_state bytes rx) c"

text \<open>The conservation equation, and the three ways a step may change the accounts.\<close>

definition conserved :: "loop_state \<Rightarrow> bool" where
  "conserved st =
     (0 \<le> available st
      \<and> available st + int (sum_list (pending_lengths st)) = RX_BUFFER_SIZE)"

definition unchanged :: "loop_state \<Rightarrow> loop_state \<Rightarrow> bool" where
  "unchanged st st' =
     (serial_tx st' = serial_tx st \<and> available st' = available st
      \<and> pending_lengths st' = pending_lengths st)"

definition credited :: "bool \<Rightarrow> loop_state \<Rightarrow> loop_state \<Rightarrow> bool" where
  "credited verbose st st' =
     (serial_tx st' = serial_tx st
      \<and> map_option (\<lambda>(response, perr, rx). (is_ok response, rx))
            (readSerialLine (serial_rx st) verbose) = Some (True, serial_rx st')
      \<and> pending_lengths st = hd (pending_lengths st) # pending_lengths st'
      \<and> available st' = available st + int (hd (pending_lengths st)))"

definition wrote :: "loop_state \<Rightarrow> loop_state \<Rightarrow> bool" where
  "wrote st st' =
     (let bytes = fst (last (serial_tx st')); n = snd (last (serial_tx st')) in
      serial_tx st' = serial_tx st @ [(bytes, n)]
      \<and> int (sum_list (pending_lengths st) + length bytes) \<le> RX_BUFFER_SIZE
      \<and> (if n = int (length bytes)
           then available st' = available st - int (length bytes)
                \<and> pending_lengths st' = pending_lengths st @ [length bytes]
           else available st' = available st \<and> pending_lengths st' = pending_lengths st))"

definition accounted :: "bool \<Rightarrow> loop_state \<Rightarrow> loop_state \<Rightarrow> bool" where
  "accounted verbose st st' = (unchanged st st' \<or> credited verbose st st' \<or> wrote st st')"

lemma conserved_bounds: "conserved st \<Longrightarrow> 0 \<le> available st \<and> available st \<le> 127"
  by (auto simp: conserved_def RX_BUFFER_SIZE_def)

lemma send_or_hold_accounted:
  assumes "conserved st" and "send_or_hold verbose wr st line = (fl, st')"
  shows "conserved st' \<and> (unchanged st st' \<or> wrote st st')"
proof (cases "length line + 1 > size_t_of_int (available st)")
  case True
  with assms show ?thesis
    by (auto simp: send_or_hold_def conserved_def unchanged_def)
next
  case False
  from assms(1) have b: "0 \<le> available st" "available st \<le> 127" "available st < 2 ^ 31"
    using conserved_bounds [of st] by auto
  with False have fits: "int (length line + 1) \<le> available st"
    by (simp add: size_t_of_int_nonneg)
  have sub: "int_of_size_t (size_t_sub (size_t_of_int (available st)) (length line + 1))
      = available st - int (length line + 1)"
    using b fits by (intro available_sub) auto
  from assms False fits sub have "conserved st'" and "wrote st st'"
    by (auto simp: send_or_hold_def Let_def conserved_def wrote_def RX_BUFFER_SIZE_def
        split: if_splits)
  then show ?thesis by simp
qed

lemma fill_body_accounted:
  assumes "conserved st" and "fill_body verbose wr (st\<lparr>gcode_file := f\<rparr>) raw = (fl, st')"
  shows "conserved st' \<and> accounted verbose st st'"
proof (cases "clean_line raw")
  case None
  with assms show ?thesis
    by (auto simp: fill_body_def conserved_def accounted_def unchanged_def)
next
  case (Some line)
  have "conserved (st\<lparr>gcode_file := f\<rparr>)"
    using assms(1) by (simp add: conserved_def)
  with Some assms(2) have "conserved st' \<and>
      (unchanged (st\<lparr>gcode_file := f\<rparr>) st' \<or> wrote (st\<lparr>gcode_file := f\<rparr>) st')"
    using send_or_hold_accounted [of "st\<lparr>gcode_file := f\<rparr>" verbose wr line fl st']
    by (simp add: fill_body_def)
  then show ?thesis
    by (auto simp: accounted_def unchanged_def wrote_def Let_def split: if_splits)
qed

lemma credit_available:
  assumes "conserved st" and "pending_lengths st = len # rest"
  shows "available (credit verbose st) = available st + int len"
    and "pending_lengths (credit verbose st) = rest"
proof -
  from assms have "0 \<le> available st" "available st + int len < 2 ^ 31"
    by (auto simp: conserved_def RX_BUFFER_SIZE_def)
  then have "int_of_size_t (size_t_add (size_t_of_int (available st)) len) = available st + int len"
    by (rule available_add)
  with assms(2) show "available (credit verbose st) = available st + int len"
    and "pending_lengths (credit verbose st) = rest"
    by (simp_all add: credit_def Let_def)
qed

lemma credit_fields [simp]:
  "gcode_file (credit verbose st) = gcode_file st"
  "return_code (credit verbose st) = return_code st"
  "serial_tx (credit verbose st) = serial_tx st"
  "cerr_text (credit verbose st) = cerr_text st"
  by (simp_all add: credit_def Let_def split: list.splits)

lemma await_response_accounted:
  assumes "conserved st" and "pending_lengths st \<noteq> []"
    and "await_response verbose st = (fl, st')"
  shows "conserved st' \<and> accounted verbose st st'"
proof (cases "readSerialLine (serial_rx st) verbose")
  case None
  with assms show ?thesis
    by (auto simp: await_response_def conserved_def accounted_def unchanged_def)
next
  case (Some t)
  obtain response perr rx where t: "t = (response, perr, rx)" by (cases t) auto
  obtain len rest where p: "pending_lengths st = len # rest"
    using assms(2) by (cases "pending_lengths st") auto
  let ?st3 = "say verbose response
     ((say verbose (''Waiting for response... (pending: ''
                   @ show_nat (length (pending_lengths st)) @ '', available: ''
                   @ show_int (available st) @ '')'' @ [NL]) st)\<lparr>serial_rx := rx, cerr_text := cerr_text st @ perr\<rparr>)"
  have c3: "conserved ?st3" using assms(1) by (simp add: conserved_def)
  have p3: "pending_lengths ?st3 = len # rest" using p by simp
  show ?thesis
  proof (cases "is_ok response")
    case False
    with assms Some t show ?thesis
      by (auto simp: await_response_def Let_def conserved_def accounted_def unchanged_def)
  next
    case True
    have st': "st' = credit verbose ?st3"
      using assms(3) Some t True by (auto simp: await_response_def Let_def split: if_splits)
    have a: "available st' = available st + int len" and q: "pending_lengths st' = rest"
      using credit_available [OF c3 p3, of verbose] st' by simp_all
    from a q p assms(1) have "conserved st'"
      by (simp add: conserved_def)
    moreover have "credited verbose st st'"
      using a q p Some t True st' by (simp add: credited_def)
    ultimately show ?thesis by (simp add: accounted_def)
  qed
qed

lemma next_config_accounted:
  assumes "conserved st" and "next_config verbose wr (ph, st) = Some (ph', st')"
  shows "conserved st' \<and> accounted verbose st st'"
proof (cases ph)
  case Filling
  show ?thesis
  proof (cases "available st > 0")
    case False
    with assms Filling show ?thesis
      by (simp add: accounted_def unchanged_def)
  next
    case True
    obtain f r where g: "getline (gcode_file st) = (f, r)" by force
    show ?thesis
    proof (cases r)
      case None
      with assms Filling True g show ?thesis
        by (auto simp: accounted_def unchanged_def conserved_def)
    next
      case (Some raw)
      obtain fl s where b: "fill_body verbose wr (st\<lparr>gcode_file := f\<rparr>) raw = (fl, s)"
        by force
      with assms(2) Filling True g Some have "s = st'"
        by (cases fl) simp_all
      with b assms(1) show ?thesis
        using fill_body_accounted by blast
    qed
  qed
next
  case Awaiting
  show ?thesis
  proof (cases "pending_lengths st = []")
    case True
    with assms Awaiting show ?thesis
      by (simp add: accounted_def unchanged_def)
  next
    case False
    obtain fl s where a: "await_response verbose st = (fl, s)" by force
    with assms(2) Awaiting False have "s = st'"
      by (cases fl) simp_all
    with a False assms(1) show ?thesis
      using await_response_accounted by blast
  qed
next
  case Exited
  with assms show ?thesis by simp
qed

lemma init_state_conserved: "conserved (init_state bytes rx)"
  by (simp add: conserved_def init_state_def RX_BUFFER_SIZE_def)

lemma reaches_conserved:
  "reaches verbose wr c0 c \<Longrightarrow> conserved (snd c0) \<Longrightarrow> conserved (snd c)"
proof (induction rule: reaches.induct)
  case start
  then show ?case by simp
next
  case (step c c')
  then show ?case
    using next_config_accounted [of "snd c" verbose wr "fst c" "fst c'" "snd c'"] by simp
qed

lemma reaches_step_front:
  "reaches verbose wr c' c'' \<Longrightarrow> next_config verbose wr c = Some c' \<Longrightarrow> reaches verbose wr c c''"
proof (induction rule: reaches.induct)
  case start
  then show ?case by (blast intro: reaches.intros)
next
  case (step d d')
  then show ?case by (blast intro: reaches.intros)
qed

lemma reaches_trans:
  "reaches verbose wr c' c'' \<Longrightarrow> reaches verbose wr c c' \<Longrightarrow> reaches verbose wr c c''"
  by (induction rule: reaches.induct) (auto intro: reaches.intros)

lemma fill_loop_reaches:
  "reaches verbose wr (Filling, st) (Awaiting, fill_loop verbose wr st)"
proof (induction verbose wr st rule: fill_loop.induct)
  case (1 verbose wr st)
  show ?case
  proof (cases "available st > 0")
    case False
    then have "next_config verbose wr (Filling, st) = Some (Awaiting, fill_loop verbose wr st)"
      by (simp add: fill_loop.simps [of verbose wr st])
    then show ?thesis by (blast intro: reaches.intros)
  next
    case True
    obtain f r where g: "getline (gcode_file st) = (f, r)" by force
    show ?thesis
    proof (cases r)
      case None
      with True g have "next_config verbose wr (Filling, st) = Some (Awaiting, fill_loop verbose wr st)"
        by (simp add: fill_loop.simps [of verbose wr st])
      then show ?thesis by (blast intro: reaches.intros)
    next
      case (Some raw)
      obtain fl s where b: "fill_body verbose wr (st\<lparr>gcode_file := f\<rparr>) raw = (fl, s)"
        by force
      show ?thesis
      proof (cases "fl = Continue")
        case True
        from True \<open>available st > 0\<close> g Some b
        have n: "next_config verbose wr (Filling, st) = Some (Filling, s)"
          and e: "fill_loop verbose wr st = fill_loop verbose wr s"
          by (simp_all add: fill_loop.simps [of verbose wr st])
        have "reaches verbose wr (Filling, s) (Awaiting, fill_loop verbose wr s)"
          using 1 [OF \<open>available st > 0\<close> g [symmetric] Some b [symmetric] True] .
        with n e show ?thesis
          using reaches_step_front by simp
      next
        case False
        with \<open>available st > 0\<close> g Some b
        have "next_config verbose wr (Filling, st) = Some (Awaiting, fill_loop verbose wr st)"
          by (cases fl) (simp_all add: fill_loop.simps [of verbose wr st])
        then show ?thesis by (blast intro: reaches.intros)
      qed
    qed
  qed
qed

lemma main_loop_reaches:
  "main_loop verbose wr st = (fl, st') \<Longrightarrow>
     (fl = Break \<and> reaches verbose wr (Filling, st) (Exited, st'))
   \<or> (fl = Hang \<and> (\<exists>s. reaches verbose wr (Filling, st) (Awaiting, s)
          \<and> pending_lengths s \<noteq> [] \<and> await_response verbose s = (Hang, st')))"
proof (induction verbose wr st rule: main_loop.induct)
  case (1 verbose wr st)
  let ?s1 = "fill_loop verbose wr st"
  have r1: "reaches verbose wr (Filling, st) (Awaiting, ?s1)"
    by (rule fill_loop_reaches)
  show ?case
  proof (cases "pending_lengths ?s1 = []")
    case True
    with 1(2) have "fl = Break" "st' = ?s1"
      by (simp_all add: main_loop.simps [of verbose wr st])
    moreover from True have "next_config verbose wr (Awaiting, ?s1) = Some (Exited, ?s1)"
      by simp
    ultimately show ?thesis
      using r1 by (blast intro: reaches.intros)
  next
    case False
    obtain fl2 s2 where a: "await_response verbose ?s1 = (fl2, s2)" by force
    show ?thesis
    proof (cases fl2)
      case Continue
      with False a 1(2) have m: "main_loop verbose wr s2 = (fl, st')"
        by (simp add: main_loop.simps [of verbose wr st])
      from False a Continue have n: "next_config verbose wr (Awaiting, ?s1) = Some (Filling, s2)"
        by simp
      with r1 have r2: "reaches verbose wr (Filling, st) (Filling, s2)"
        by (blast intro: reaches.intros)
      from 1(1) [OF refl False a [symmetric] Continue m]
      show ?thesis
        using r2 reaches_trans by blast
    next
      case Break
      with False a 1(2) have "fl = Break" "st' = s2"
        by (simp_all add: main_loop.simps [of verbose wr st])
      moreover from False a Break have "next_config verbose wr (Awaiting, ?s1) = Some (Exited, s2)"
        by simp
      ultimately show ?thesis
        using r1 by (blast intro: reaches.intros)
    next
      case Hang
      with False a 1(2) have "fl = Hang" "st' = s2"
        by (simp_all add: main_loop.simps [of verbose wr st])
      with False a Hang r1 show ?thesis by blast
    qed
  qed
qed

lemma await_response_Hang_conserved:
  "await_response verbose s = (Hang, st') \<Longrightarrow> conserved s \<Longrightarrow> conserved st'"
  by (auto simp: await_response_def Let_def conserved_def split: option.splits if_splits)

lemma stream_conserved: "conserved (snd (stream verbose wr bytes rx))"
proof -
  obtain fl st where m: "main_loop verbose wr (init_state bytes rx) = (fl, st)" by force
  have "conserved st"
    using main_loop_reaches [OF m] reaches_conserved [of verbose wr "(Filling, init_state bytes rx)"]
      init_state_conserved [of bytes rx] await_response_Hang_conserved
    by fastforce
  with m show ?thesis
    by (cases fl) (simp_all add: stream_def conserved_def)
qed

text \<open>
  C1. In every configuration the streaming loop can reach, \<open>available\<close> is not negative
  and \<open>available\<close> plus the sum of the queued lengths is \<open>RX_BUFFER_SIZE\<close> (127). Every
  step out of such a configuration is accounted for: either nothing is written and
  \<open>available\<close> and the queue stay as they are; or a response that passes the \<open>ok\<close> test
  was read, the head of the queue was removed and exactly its length was added to
  \<open>available\<close>; or exactly one \<open>write\<close> was issued, for bytes that together with the
  queued lengths do not exceed 127, and \<open>available\<close> dropped by the number of bytes, which
  joined the queue at its tail, if and only if the write returned that number. The state in
  which \<open>main\<close> returns or hangs satisfies the same equation. Configurations are taken
  where control is at the head of the inner loop, at the test of line 273 and behind the
  outer loop; the two assignments of lines 268-269, and those of lines 304-305, are one step.
\<close>

theorem conservation:
  assumes "reachable verbose wr bytes rx c"
  shows "conserved (snd c)
    \<and> (case next_config verbose wr c of
         None \<Rightarrow> True
       | Some c' \<Rightarrow> accounted verbose (snd c) (snd c'))
    \<and> conserved (snd (stream verbose wr bytes rx))"
proof -
  from assms have c: "conserved (snd c)"
    using reaches_conserved [of verbose wr "(Filling, init_state bytes rx)" c]
    by (simp add: reachable_def init_state_conserved)
  have "accounted verbose (snd c) (snd c')" if "next_config verbose wr c = Some c'" for c'
    using that c next_config_accounted [of "snd c" verbose wr "fst c" "fst c'" "snd c'"] by simp
  with c show ?thesis
    by (simp add: stream_conserved split: option.splits)
qed

text \<open>A device that takes every write in full, and one that delivers the given response lines.\<close>

definition write_all :: write_fn where
  "write_all k bytes = int (length bytes)"

definition responses :: "string list \<Rightarrow> rd_event list" where
  "responses rs = concat (map (\<lambda>r. map ReadByte (r @ [NL])) rs)"

lemmas run_defs =
  init_state_def open_file_def getline_def seekg_cur_def fill_body_def clean_line_def
  send_or_hold_def say_def await_response_def readSerialLine_def credit_def is_ok_def
  trim_response_def tolower_def is_ws_def size_t_of_int_def int_of_size_t_def size_t_sub_def
  size_t_add_def RX_BUFFER_SIZE_def write_all_def responses_def Let_def

theorem conservation_witness:
  "reachable False write_all (''G1'' @ [NL]) (responses [''ok''])
     (Filling, \<lparr>gcode_file = \<lparr>content = ''G1'' @ [NL], pos = 3, eofbit = False, failbit = False\<rparr>,
        available = 124, pending_lengths = [3], return_code = 0,
        serial_rx = responses [''ok''], serial_tx = [(''G1'' @ [NL], 3)],
        cout_text = [], cerr_text = []\<rparr>)
   \<and> conserved \<lparr>gcode_file = \<lparr>content = ''G1'' @ [NL], pos = 3, eofbit = False, failbit = False\<rparr>,
        available = 124, pending_lengths = [3], return_code = 0,
        serial_rx = responses [''ok''], serial_tx = [(''G1'' @ [NL], 3)],
        cout_text = [], cerr_text = []\<rparr>
   \<and> conserved (snd (stream False write_all (''G1'' @ [NL]) (responses [''ok''])))"
proof -
  let ?c0 = "(Filling, init_state (''G1'' @ [NL]) (responses [''ok'']))"
  let ?c1 = "(Filling, \<lparr>gcode_file = \<lparr>content = ''G1'' @ [NL], pos = 3, eofbit = False, failbit = False\<rparr>,
        available = 124, pending_lengths = [3], return_code = 0,
        serial_rx = responses [''ok''], serial_tx = [(''G1'' @ [NL], 3)],
        cout_text = [], cerr_text = []\<rparr>)"
  have "next_config False write_all ?c0 = Some ?c1"
    by (simp add: run_defs)
  then have r: "reachable False write_all (''G1'' @ [NL]) (responses [''ok'']) ?c1"
    unfolding reachable_def by (rule reaches.step [OF reaches.start])
  from conservation [OF r] r show ?thesis by simp
qed

section \<open>The verbose flag\<close>

text \<open>A state with what was printed to standard output forgotten.\<close>

definition quiet :: "loop_state \<Rightarrow> loop_state" where
  "quiet st = st\<lparr>cout_text := []\<rparr>"

lemma quiet_say [simp]: "quiet (say verbose txt st) = quiet st"
  by (simp add: quiet_def say_def)

lemma quiet_fields [simp]:
  "gcode_file (quiet st) = gcode_file st"
  "available (quiet st) = available st"
  "pending_lengths (quiet st) = pending_lengths st"
  "return_code (quiet st) = return_code st"
  "serial_rx (quiet st) = serial_rx st"
  "serial_tx (quiet st) = serial_tx st"
  "cerr_text (quiet st) = cerr_text st"
  by (simp_all add: quiet_def)

lemma quiet_updates [simp]:
  "quiet (st\<lparr>gcode_file := f\<rparr>) = (quiet st)\<lparr>gcode_file := f\<rparr>"
  "quiet (st\<lparr>available := a\<rparr>) = (quiet st)\<lparr>available := a\<rparr>"
  "quiet (st\<lparr>pending_lengths := p\<rparr>) = (quiet st)\<lparr>pending_lengths := p\<rparr>"
  "quiet (st\<lparr>return_code := r\<rparr>) = (quiet st)\<lparr>return_code := r\<rparr>"
  "quiet (st\<lparr>serial_rx := rx\<rparr>) = (quiet st)\<lparr>serial_rx := rx\<rparr>"
  "quiet (st\<lparr>serial_tx := tx\<rparr>) = (quiet st)\<lparr>serial_tx := tx\<rparr>"
  "quiet (st\<lparr>cerr_text := e\<rparr>) = (quiet st)\<lparr>cerr_text := e\<rparr>"
  by (simp_all add: quiet_def)

lemma say_False [simp]: "say False txt st = st"
  by (simp add: say_def)

lemma send_or_hold_quiet:
  "apsnd quiet (send_or_hold verbose wr st line) = send_or_hold False wr (quiet st) line"
  by (simp add: send_or_hold_def Let_def)

lemma fill_body_quiet:
  "apsnd quiet (fill_body verbose wr st raw) = fill_body False wr (quiet st) raw"
  by (simp add: fill_body_def send_or_hold_quiet split: option.splits)

lemma fill_loop_quiet:
  "quiet (fill_loop verbose wr st) = fill_loop False wr (quiet st)"
proof (induction verbose wr st rule: fill_loop.induct)
  case (1 verbose wr st)
  show ?case
  proof (cases "available st > 0")
    case False
    then show ?thesis
      by (simp add: fill_loop.simps [of _ wr st] fill_loop.simps [of _ wr "quiet st"])
  next
    case True
    obtain f r where g: "getline (gcode_file st) = (f, r)" by force
    show ?thesis
    proof (cases r)
      case None
      with True g show ?thesis
        by (simp add: fill_loop.simps [of _ wr st] fill_loop.simps [of _ wr "quiet st"])
    next
      case (Some raw)
      obtain fl s where b: "fill_body verbose wr (st\<lparr>gcode_file := f\<rparr>) raw = (fl, s)"
        by force
      then have q: "fill_body False wr ((quiet st)\<lparr>gcode_file := f\<rparr>) raw = (fl, quiet s)"
        using fill_body_quiet [of verbose wr "st\<lparr>gcode_file := f\<rparr>" raw] by simp
      show ?thesis
      proof (cases "fl = Continue")
        case True
        have "quiet (fill_loop verbose wr s) = fill_loop False wr (quiet s)"
          using 1 [OF \<open>available st > 0\<close> g [symmetric] Some b [symmetric] True] .
        with True \<open>available st > 0\<close> g Some b q show ?thesis
          by (simp add: fill_loop.simps [of _ wr st] fill_loop.simps [of _ wr "quiet st"])
      next
        case False
        with \<open>available st > 0\<close> g Some b q show ?thesis
          by (cases fl) (simp_all add: fill_loop.simps [of _ wr st] fill_loop.simps [of _ wr "quiet st"])
      qed
    qed
  qed
qed

lemma credit_quiet: "quiet (credit verbose st) = credit False (quiet st)"
  by (simp add: credit_def Let_def split: list.splits)

lemma await_response_quiet:
  "apsnd quiet (await_response verbose st) = await_response False (quiet st)"
  by (simp add: await_response_def readSerialLine_def Let_def credit_quiet
      split: option.splits)

lemma main_loop_quiet:
  "apsnd quiet (main_loop verbose wr st) = main_loop False wr (quiet st)"
proof (induction verbose wr st rule: main_loop.induct)
  case (1 verbose wr st)
  let ?s1 = "fill_loop verbose wr st"
  have f: "fill_loop False wr (quiet st) = quiet ?s1"
    by (simp add: fill_loop_quiet)
  show ?case
  proof (cases "pending_lengths ?s1 = []")
    case True
    with f show ?thesis
      by (simp add: main_loop.simps [of _ wr st] main_loop.simps [of _ wr "quiet st"])
  next
    case False
    obtain fl s2 where a: "await_response verbose ?s1 = (fl, s2)" by force
    then have q: "await_response False (quiet ?s1) = (fl, quiet s2)"
      using await_response_quiet [of verbose ?s1] by simp
    show ?thesis
    proof (cases "fl = Continue")
      case True
      have "apsnd quiet (main_loop verbose wr s2) = main_loop False wr (quiet s2)"
        using 1 [OF refl False a [symmetric] True] .
      with True False a q f show ?thesis
        by (simp add: main_loop.simps [of _ wr st] main_loop.simps [of _ wr "quiet st"])
    next
      case False
      with \<open>pending_lengths ?s1 \<noteq> []\<close> a q f show ?thesis
        by (cases fl) (simp_all add: main_loop.simps [of _ wr st] main_loop.simps [of _ wr "quiet st"])
    qed
  qed
qed

lemma stream_quiet:
  "apsnd quiet (stream verbose wr bytes rx) = stream False wr bytes rx"
proof -
  obtain fl st where m: "main_loop verbose wr (init_state bytes rx) = (fl, st)" by force
  have i: "quiet (init_state bytes rx) = init_state bytes rx"
    by (simp add: quiet_def init_state_def)
  from m have "main_loop False wr (init_state bytes rx) = (fl, quiet st)"
    using main_loop_quiet [of verbose wr "init_state bytes rx"] i by simp
  with m show ?thesis
    by (cases fl) (simp_all add: stream_def)
qed

lemma next_config_quiet:
  "map_option (apsnd quiet) (next_config verbose wr c) = next_config False wr (apsnd quiet c)"
proof -
  obtain ph st where c: "c = (ph, st)" by force
  show ?thesis
  proof (cases ph)
    case Filling
    obtain f r where g: "getline (gcode_file st) = (f, r)" by force
    show ?thesis
    proof (cases r)
      case None
      with c Filling g show ?thesis by simp
    next
      case (Some raw)
      obtain fl s where b: "fill_body verbose wr (st\<lparr>gcode_file := f\<rparr>) raw = (fl, s)"
        by force
      then have "fill_body False wr ((quiet st)\<lparr>gcode_file := f\<rparr>) raw = (fl, quiet s)"
        using fill_body_quiet [of verbose wr "st\<lparr>gcode_file := f\<rparr>" raw] by simp
      with c Filling g Some b show ?thesis
        by (cases fl) simp_all
    qed
  next
    case Awaiting
    obtain fl s where a: "await_response verbose st = (fl, s)" by force
    then have "await_response False (quiet st) = (fl, quiet s)"
      using await_response_quiet [of verbose st] by simp
    with c Awaiting a show ?thesis
      by (cases fl) simp_all
  next
    case Exited
    with c show ?thesis by simp
  qed
qed

text \<open>
  C10. For every file, every behaviour of \<open>write\<close> and every sequence of observations
  on the serial input, the run with \<open>verbose\<close> set and the run without it end the same way
  (both return, or both wait for ever) in states that differ at most in the text printed
  to standard output: the calls of \<open>write\<close> with their bytes and results, \<open>available\<close>,
  the queue, the file position, the input consumed, the messages on standard error and
  the return code are equal. The same holds step by step: the successor of a configuration
  under \<open>verbose\<close> is, standard output apart, its successor without \<open>verbose\<close>.
\<close>

theorem verbose_noninterference:
  "apsnd quiet (stream True wr bytes rx) = apsnd quiet (stream False wr bytes rx)
   \<and> map_option (apsnd quiet) (next_config True wr c)
       = map_option (apsnd quiet) (next_config False wr c)"
proof -
  have "map_option (apsnd quiet) (next_config True wr c)
      = map_option (apsnd quiet) (next_config False wr c)"
    using next_config_quiet [of True wr c] next_config_quiet [of False wr c] by simp
  moreover have "apsnd quiet (stream True wr bytes rx) = apsnd quiet (stream False wr bytes rx)"
    using stream_quiet [of True wr bytes rx] stream_quiet [of False wr bytes rx] by simp
  ultimately show ?thesis by simp
qed

section \<open>Failures\<close>

text \<open>A device whose second call of \<open>write\<close> fails with \<open>-1\<close>.\<close>

definition write_second_fails :: write_fn where
  "write_second_fails k bytes = (if k = 1 then - 1 else int (length bytes))"

text \<open>
  C8, the code at the failing input. The file holds two commands, the second \<open>write\<close>
  returns \<open>-1\<close>, and the device answers the first command with \<open>ok\<close>. After the failed write
  the loop still waits for a response, reads the \<open>ok\<close> and credits its 6 bytes before it
  returns 1; and when the device sends nothing, \<open>main\<close> never returns.
\<close>

theorem write_failure_then_read:
  "stream False write_second_fails (''G1 X1'' @ [NL] @ ''G1 Y1'' @ [NL]) (responses [''ok''])
     = (Break,
        \<lparr>gcode_file = \<lparr>content = ''G1 X1'' @ [NL] @ ''G1 Y1'' @ [NL], pos = 12,
                        eofbit = False, failbit = False\<rparr>,
         available = 127, pending_lengths = [], return_code = 1, serial_rx = [],
         serial_tx = [(''G1 X1'' @ [NL], 6), (''G1 Y1'' @ [NL], - 1)],
         cout_text = [], cerr_text = [''Error writing to serial port.'']\<rparr>)
   \<and> fst (stream False write_second_fails (''G1 X1'' @ [NL] @ ''G1 Y1'' @ [NL]) []) = Hang"
  by (simp add: stream_def main_loop.simps fill_loop.simps run_defs write_second_fails_def)

text \<open>
  A response that fails the \<open>ok\<close> test ends the loop: the state is the one the fill phase
  left, with the response consumed and the messages printed.
\<close>

lemma await_response_not_ok:
  assumes "readSerialLine (serial_rx st) verbose = Some (response, perr, rx)"
    and "\<not> is_ok response"
  shows "fst (await_response verbose st) = Break"
    and "serial_tx (snd (await_response verbose st)) = serial_tx st"
    and "serial_rx (snd (await_response verbose st)) = rx"
    and "available (snd (await_response verbose st)) = available st"
    and "pending_lengths (snd (await_response verbose st)) = pending_lengths st"
    and "gcode_file (snd (await_response verbose st)) = gcode_file st"
    and "return_code (snd (await_response verbose st)) = return_code st"
    and "cerr_text (snd (await_response verbose st))
          = cerr_text st @ perr @ [''GRBL error detected: '' @ trim_response response @ '' Halting execution.'']"
  using assms by (simp_all add: await_response_def Let_def)

lemma main_loop_not_Continue:
  assumes "pending_lengths (fill_loop verbose wr st) \<noteq> []"
    and "fst (await_response verbose (fill_loop verbose wr st)) \<noteq> Continue"
  shows "main_loop verbose wr st = await_response verbose (fill_loop verbose wr st)"
proof -
  obtain fl s where a: "await_response verbose (fill_loop verbose wr st) = (fl, s)" by force
  with assms show ?thesis
    by (cases fl) (simp_all add: main_loop.simps [of verbose wr st])
qed

lemma main_loop_halts:
  assumes "pending_lengths (fill_loop verbose wr st) \<noteq> []"
    and "readSerialLine (serial_rx st) verbose = Some (response, perr, rx)"
    and "\<not> is_ok response"
  shows "main_loop verbose wr st = await_response verbose (fill_loop verbose wr st)"
    and "fst (await_response verbose (fill_loop verbose wr st)) = Break"
proof -
  have r: "readSerialLine (serial_rx (fill_loop verbose wr st)) verbose = Some (response, perr, rx)"
    using assms(2) by (simp add: fill_loop_serial_rx)
  show b: "fst (await_response verbose (fill_loop verbose wr st)) = Break"
    using await_response_not_ok(1) [OF r assms(3)] .
  show "main_loop verbose wr st = await_response verbose (fill_loop verbose wr st)"
    using main_loop_not_Continue [OF assms(1)] b by simp
qed

text \<open>
  C2, amended. When the response read does not pass the \<open>ok\<close> test (after trimming and
  lower-casing it does not contain \<open>ok\<close>), the loop is left at once: the commands the fill
  phase before that read had room for have been written, nothing is written and nothing is
  read after the response, nothing is credited, and the trimmed response is reported on
  standard error. The return code is not part of this statement.
\<close>

theorem halt_on_error:
  assumes "pending_lengths (fill_loop verbose wr st) \<noteq> []"
    and "readSerialLine (serial_rx st) verbose = Some (response, perr, rx)"
    and "\<not> is_ok response"
  shows "fst (main_loop verbose wr st) = Break
    \<and> serial_tx (snd (main_loop verbose wr st)) = serial_tx (fill_loop verbose wr st)
    \<and> serial_rx (snd (main_loop verbose wr st)) = rx
    \<and> available (snd (main_loop verbose wr st)) = available (fill_loop verbose wr st)
    \<and> pending_lengths (snd (main_loop verbose wr st)) = pending_lengths (fill_loop verbose wr st)
    \<and> cerr_text (snd (main_loop verbose wr st))
        = cerr_text (fill_loop verbose wr st) @ perr
          @ [''GRBL error detected: '' @ trim_response response @ '' Halting execution.'']"
proof -
  have r: "readSerialLine (serial_rx (fill_loop verbose wr st)) verbose = Some (response, perr, rx)"
    using assms(2) by (simp add: fill_loop_serial_rx)
  note h = main_loop_halts [OF assms] and a = await_response_not_ok [OF r assms(3)]
  show ?thesis
    unfolding h(1) using a by simp
qed

text \<open>
  The scenario of the claim: five commands of six bytes each, the second response being
  \<open>error:9\<close>. All five fit the buffer and are written before the first response is
  awaited. \<open>after_first_ok\<close> is the state at the head of the loop after the first \<open>ok\<close>.
\<close>

definition five_commands :: string where
  "five_commands = ''G1 X1'' @ [NL] @ ''G1 X2'' @ [NL] @ ''G1 X3'' @ [NL] @ ''G1 X4'' @ [NL]
     @ ''G1 X5'' @ [NL]"

definition five_writes :: "(string \<times> int) list" where
  "five_writes = [(''G1 X1'' @ [NL], 6), (''G1 X2'' @ [NL], 6), (''G1 X3'' @ [NL], 6),
     (''G1 X4'' @ [NL], 6), (''G1 X5'' @ [NL], 6)]"

definition after_first_ok :: loop_state where
  "after_first_ok =
     \<lparr>gcode_file = \<lparr>content = five_commands, pos = 30, eofbit = True, failbit = True\<rparr>,
      available = 103, pending_lengths = [6, 6, 6, 6], return_code = 0,
      serial_rx = responses [''error:9''], serial_tx = five_writes,
      cout_text = [], cerr_text = []\<rparr>"

theorem halt_on_error_witness:
  "snd (await_response False (fill_loop False write_all
      (init_state five_commands (responses [''ok'', ''error:9''])))) = after_first_ok
   \<and> pending_lengths (fill_loop False write_all after_first_ok) = [6, 6, 6, 6]
   \<and> readSerialLine (serial_rx after_first_ok) False = Some (''error:9'' @ [NL], [], [])
   \<and> \<not> is_ok (''error:9'' @ [NL])
   \<and> fst (main_loop False write_all after_first_ok) = Break
   \<and> serial_tx (snd (main_loop False write_all after_first_ok)) = five_writes
   \<and> serial_rx (snd (main_loop False write_all after_first_ok)) = []
   \<and> available (snd (main_loop False write_all after_first_ok)) = 127 - 5 * 6 + 6
   \<and> cerr_text (snd (main_loop False write_all after_first_ok))
       = [''GRBL error detected: error:9 Halting execution.'']"
proof -
  have i: "snd (await_response False (fill_loop False write_all
      (init_state five_commands (responses [''ok'', ''error:9''])))) = after_first_ok"
    by (simp add: after_first_ok_def five_commands_def five_writes_def fill_loop.simps run_defs)
  have f: "fill_loop False write_all after_first_ok = after_first_ok"
    by (simp add: after_first_ok_def fill_loop.simps run_defs)
  have p: "pending_lengths (fill_loop False write_all after_first_ok) \<noteq> []"
    unfolding f by (simp add: after_first_ok_def)
  have r: "readSerialLine (serial_rx after_first_ok) False = Some (''error:9'' @ [NL], [], [])"
    by (simp add: after_first_ok_def readSerialLine_def responses_def)
  have n: "\<not> is_ok (''error:9'' @ [NL])"
    by (simp add: run_defs)
  have t: "trim_response (''error:9'' @ [NL]) = ''error:9''"
    by (simp add: run_defs)
  have flds: "serial_tx after_first_ok = five_writes" "available after_first_ok = 103"
    "cerr_text after_first_ok = []" "pending_lengths after_first_ok = [6, 6, 6, 6]"
    by (simp_all add: after_first_ok_def)
  from halt_on_error [OF p r n] i r n show ?thesis
    by (simp add: f t [simplified] flds)
qed

theorem halt_on_error_counterexample:
  "stream False write_all five_commands (responses [''ok'', ''error:9''])
     = (Break,
        \<lparr>gcode_file = \<lparr>content = five_commands, pos = 30, eofbit = True, failbit = True\<rparr>,
         available = 103, pending_lengths = [6, 6, 6, 6], return_code = 0, serial_rx = [],
         serial_tx = five_writes, cout_text = [],
         cerr_text = [''GRBL error detected: error:9 Halting execution.'']\<rparr>)"
  by (simp add: stream_def main_loop.simps fill_loop.simps five_commands_def five_writes_def run_defs)

lemma readSerialLine_loop_partial:
  assumes "NL \<notin> set partial" and "e = ReadEof \<or> e = ReadError"
  shows "readSerialLine_loop line (map ReadByte partial @ e # rest)
    = Some (line @ partial, if e = ReadError then [''read''] else [], rest)"
  using assms by (induction partial arbitrary: line) auto

text \<open>
  C5, amended. A read of length zero (end of file) or of negative length (after the
  message of \<open>perror\<close>) while a response is awaited ends the response with the bytes read
  so far; \<open>readSerialLine\<close> returns them as it returns a complete line, and the loop
  classifies them by the same \<open>ok\<close> test. When they do not pass it, in particular when
  nothing was read, the loop is left at once through the branch that reports a GRBL error:
  nothing is written and nothing is read afterwards. The return code is not part of this
  statement.
\<close>

theorem read_failure_classified:
  assumes "NL \<notin> set partial"
    and "e = ReadEof \<or> e = ReadError"
    and "serial_rx st = map ReadByte partial @ e # rest"
    and "\<not> is_ok partial"
    and "pending_lengths (fill_loop verbose wr st) \<noteq> []"
  shows "readSerialLine (serial_rx st) verbose
      = Some (partial, if e = ReadError then [''read''] else [], rest)
    \<and> fst (main_loop verbose wr st) = Break
    \<and> serial_tx (snd (main_loop verbose wr st)) = serial_tx (fill_loop verbose wr st)
    \<and> serial_rx (snd (main_loop verbose wr st)) = rest
    \<and> cerr_text (snd (main_loop verbose wr st))
        = cerr_text (fill_loop verbose wr st) @ (if e = ReadError then [''read''] else [])
          @ [''GRBL error detected: '' @ trim_response partial @ '' Halting execution.'']"
proof -
  let ?perr = "if e = ReadError then [''read''] else []"
  have r0: "readSerialLine (serial_rx st) verbose = Some (partial, ?perr, rest)"
    using readSerialLine_loop_partial [OF assms(1,2), of "[]" rest] assms(3)
    by (simp add: readSerialLine_def)
  then have r: "readSerialLine (serial_rx (fill_loop verbose wr st)) verbose
      = Some (partial, ?perr, rest)"
    by (simp add: fill_loop_serial_rx)
  note h = main_loop_halts [OF assms(5) r0 assms(4)]
    and a = await_response_not_ok [OF r assms(4)]
  show ?thesis
    unfolding h(1) using a r0 by simp
qed

theorem read_failure_classified_witness:
  "NL \<notin> set ''er''
   \<and> serial_rx (init_state (''G1 X1'' @ [NL]) (map ReadByte ''er'' @ [ReadError]))
       = map ReadByte ''er'' @ ReadError # []
   \<and> \<not> is_ok ''er''
   \<and> pending_lengths (fill_loop False write_all
         (init_state (''G1 X1'' @ [NL]) (map ReadByte ''er'' @ [ReadError]))) = [6]
   \<and> fst (main_loop False write_all
         (init_state (''G1 X1'' @ [NL]) (map ReadByte ''er'' @ [ReadError]))) = Break
   \<and> serial_tx (snd (main_loop False write_all
         (init_state (''G1 X1'' @ [NL]) (map ReadByte ''er'' @ [ReadError]))))
       = [(''G1 X1'' @ [NL], 6)]
   \<and> cerr_text (snd (main_loop False write_all
         (init_state (''G1 X1'' @ [NL]) (map ReadByte ''er'' @ [ReadError]))))
       = [''read'', ''GRBL error detected: er Halting execution.'']"
proof -
  let ?st = "init_state (''G1 X1'' @ [NL]) (map ReadByte ''er'' @ [ReadError])"
  have f: "fill_loop False write_all ?st =
      \<lparr>gcode_file = \<lparr>content = ''G1 X1'' @ [NL], pos = 6, eofbit = True, failbit = True\<rparr>,
       available = 121, pending_lengths = [6], return_code = 0,
       serial_rx = map ReadByte ''er'' @ [ReadError], serial_tx = [(''G1 X1'' @ [NL], 6)],
       cout_text = [], cerr_text = []\<rparr>"
    by (simp add: fill_loop.simps run_defs)
  have n: "NL \<notin> set ''er''" by simp
  have e: "ReadError = ReadEof \<or> ReadError = ReadError" by simp
  have rx: "serial_rx ?st = map ReadByte ''er'' @ ReadError # []"
    by (simp add: init_state_def)
  have k: "\<not> is_ok ''er''" by (simp add: run_defs)
  have p: "pending_lengths (fill_loop False write_all ?st) \<noteq> []"
    by (simp add: f [simplified])
  have t: "trim_response ''er'' = ''er''" by (simp add: run_defs)
  from read_failure_classified [OF n e rx k p] n rx k show ?thesis
    by (simp add: f [simplified] t)
qed

text \<open>
  The claim as stated fails: the connection is closed (a read of length zero) while the
  acknowledgment of the only command is awaited; the loop reports a GRBL error with an
  empty text and \<open>main\<close> returns 0.
\<close>

theorem read_failure_classified_counterexample:
  "stream False write_all (''G1 X1'' @ [NL]) [ReadEof]
     = (Break,
        \<lparr>gcode_file = \<lparr>content = ''G1 X1'' @ [NL], pos = 6, eofbit = True, failbit = True\<rparr>,
         available = 121, pending_lengths = [6], return_code = 0, serial_rx = [],
         serial_tx = [(''G1 X1'' @ [NL], 6)], cout_text = [],
         cerr_text = [''GRBL error detected:  Halting execution.'']\<rparr>)"
  by (simp add: stream_def main_loop.simps fill_loop.simps run_defs)

section \<open>First in, first out\<close>

text \<open>
  The wire lengths of the commands written in full so far, in the order of the calls of
  \<open>write\<close>.
\<close>

definition sent_lengths :: "loop_state \<Rightarrow> nat list" where
  "sent_lengths st =
     map (\<lambda>(bytes, n). length bytes) (filter (\<lambda>(bytes, n). n = int (length bytes)) (serial_tx st))"

text \<open>
  A step is an acknowledgment when the loop waits with a non-empty queue and the response
  it reads passes the \<open>ok\<close> test; nothing else of the response is looked at. Its credit is
  the amount by which \<open>available\<close> grows in that step.
\<close>

definition is_ack :: "bool \<Rightarrow> config \<Rightarrow> bool" where
  "is_ack verbose c =
     (fst c = Awaiting \<and> pending_lengths (snd c) \<noteq> []
      \<and> (case readSerialLine (serial_rx (snd c)) verbose of
            None \<Rightarrow> False
          | Some (response, perr, rx) \<Rightarrow> is_ok response))"

definition credit_of :: "bool \<Rightarrow> config \<Rightarrow> config \<Rightarrow> nat list" where
  "credit_of verbose c c' =
     (if is_ack verbose c then [nat (available (snd c') - available (snd c))] else [])"

text \<open>
  A run of the loop together with the credits of its acknowledgments, in the order in
  which the responses were read: the \<open>k\<close>-th acknowledgment of the run contributes the
  \<open>k\<close>-th element.
\<close>

inductive run_credits :: "bool \<Rightarrow> write_fn \<Rightarrow> config \<Rightarrow> nat list \<Rightarrow> config \<Rightarrow> bool"
  for verbose :: bool and wr :: write_fn and c0 :: config where
  start: "run_credits verbose wr c0 [] c0"
| step: "run_credits verbose wr c0 cs c \<Longrightarrow> next_config verbose wr c = Some c'
    \<Longrightarrow> run_credits verbose wr c0 (cs @ credit_of verbose c c') c'"

lemma run_credits_reaches: "run_credits verbose wr c0 cs c \<Longrightarrow> reaches verbose wr c0 c"
  by (induction rule: run_credits.induct) (auto intro: reaches.intros)

lemma reaches_run_credits: "reaches verbose wr c0 c \<Longrightarrow> \<exists>cs. run_credits verbose wr c0 cs c"
  by (induction rule: reaches.induct) (auto intro: run_credits.intros)

lemma await_response_ok:
  assumes "conserved st" and "pending_lengths st = len # rest"
    and "readSerialLine (serial_rx st) verbose = Some (response, perr, rx)"
    and "is_ok response" and "await_response verbose st = (fl, st')"
  shows "available st' = available st + int len" and "pending_lengths st' = rest"
    and "serial_tx st' = serial_tx st" and "serial_rx st' = rx"
    and "fl = (if return_code st = 0 then Continue else Break)"
proof -
  let ?st3 = "say verbose response
     ((say verbose (''Waiting for response... (pending: ''
                   @ show_nat (length (pending_lengths st)) @ '', available: ''
                   @ show_int (available st) @ '')'' @ [NL]) st)\<lparr>serial_rx := rx, cerr_text := cerr_text st @ perr\<rparr>)"
  have c3: "conserved ?st3" using assms(1) by (simp add: conserved_def)
  have p3: "pending_lengths ?st3 = len # rest" using assms(2) by simp
  have st': "st' = credit verbose ?st3"
    and fl: "fl = (if return_code st = 0 then Continue else Break)"
    using assms(3,4,5) by (auto simp: await_response_def Let_def split: if_splits)
  show "available st' = available st + int len" and "pending_lengths st' = rest"
    using credit_available [OF c3 p3, of verbose] st' by simp_all
  show "serial_tx st' = serial_tx st" and "serial_rx st' = rx"
    using st' by simp_all
  show "fl = (if return_code st = 0 then Continue else Break)" by (rule fl)
qed

lemma next_config_ack:
  assumes "conserved st" and "next_config verbose wr (ph, st) = Some (ph', st')"
    and "is_ack verbose (ph, st)"
  shows "pending_lengths st = nat (available st' - available st) # pending_lengths st'"
    and "serial_tx st' = serial_tx st"
    and "st' = snd (await_response verbose st)"
proof -
  from assms(3) have ph: "ph = Awaiting" and ne: "pending_lengths st \<noteq> []"
    by (simp_all add: is_ack_def)
  from assms(3) obtain response perr rx
    where r: "readSerialLine (serial_rx st) verbose = Some (response, perr, rx)"
      and ok: "is_ok response"
    by (auto simp: is_ack_def split: option.splits)
  obtain len rest where p: "pending_lengths st = len # rest"
    using ne by (cases "pending_lengths st") auto
  obtain fl s where a: "await_response verbose st = (fl, s)" by force
  with assms(2) ph ne have s: "s = st'"
    by (cases fl) simp_all
  note e = await_response_ok [OF assms(1) p r ok a [unfolded s]]
  from e(1) have "nat (available st' - available st) = len" by simp
  with p e(2) show "pending_lengths st = nat (available st' - available st) # pending_lengths st'"
    by simp
  show "serial_tx st' = serial_tx st" by (rule e(3))
  show "st' = snd (await_response verbose st)" using a s by simp
qed

lemma next_config_no_ack:
  assumes "conserved st" and "next_config verbose wr (ph, st) = Some (ph', st')"
    and "\<not> is_ack verbose (ph, st)"
  shows "unchanged st st' \<or> wrote st st'"
proof (cases ph)
  case Filling
  show ?thesis
  proof (cases "available st > 0")
    case False
    with assms(2) Filling show ?thesis by (simp add: unchanged_def)
  next
    case True
    obtain f r where g: "getline (gcode_file st) = (f, r)" by force
    show ?thesis
    proof (cases r)
      case None
      with assms(2) Filling True g show ?thesis by (auto simp: unchanged_def)
    next
      case (Some raw)
      obtain fl s where b: "fill_body verbose wr (st\<lparr>gcode_file := f\<rparr>) raw = (fl, s)"
        by force
      with assms(2) Filling True g Some have s: "s = st'"
        by (cases fl) simp_all
      have c: "conserved (st\<lparr>gcode_file := f\<rparr>)"
        using assms(1) by (simp add: conserved_def)
      have "unchanged (st\<lparr>gcode_file := f\<rparr>) st' \<or> wrote (st\<lparr>gcode_file := f\<rparr>) st'"
      proof (cases "clean_line raw")
        case None
        with b s show ?thesis by (auto simp: fill_body_def unchanged_def)
      next
        case (Some line)
        with b s have "send_or_hold verbose wr (st\<lparr>gcode_file := f\<rparr>) line = (fl, st')"
          by (simp add: fill_body_def)
        then show ?thesis
          using send_or_hold_accounted [OF c] by blast
      qed
      then show ?thesis
        by (auto simp: unchanged_def wrote_def Let_def split: if_splits)
    qed
  qed
next
  case Awaiting
  show ?thesis
  proof (cases "pending_lengths st = []")
    case True
    with assms(2) Awaiting show ?thesis by (simp add: unchanged_def)
  next
    case False
    obtain fl s where a: "await_response verbose st = (fl, s)" by force
    with assms(2) Awaiting False have s: "s = st'" and fl: "fl \<noteq> Hang"
      by (cases fl; simp)+
    show ?thesis
    proof (cases "readSerialLine (serial_rx st) verbose")
      case None
      with a fl show ?thesis
        by (simp add: await_response_def)
    next
      case (Some t)
      obtain response perr rx where t: "t = (response, perr, rx)" by (cases t) auto
      with assms(3) Awaiting False Some have "\<not> is_ok response"
        by (simp add: is_ack_def)
      then show ?thesis
        using await_response_not_ok [OF Some [unfolded t]] a s by (simp add: unchanged_def)
    qed
  qed
next
  case Exited
  with assms(2) show ?thesis by simp
qed

lemma wrote_sent_lengths:
  assumes "wrote st st'" and "sent_lengths st = pre @ pending_lengths st"
  shows "sent_lengths st' = pre @ pending_lengths st'"
proof -
  from assms(1) obtain b n where tx: "serial_tx st' = serial_tx st @ [(b, n)]"
    and eff: "if n = int (length b)
         then pending_lengths st' = pending_lengths st @ [length b]
         else pending_lengths st' = pending_lengths st"
    unfolding wrote_def Let_def
    by (metis (no_types, lifting) last_snoc)
  show ?thesis
  proof (cases "n = int (length b)")
    case True
    then have "sent_lengths st' = sent_lengths st @ [length b]"
      by (simp add: sent_lengths_def tx)
    with True eff assms(2) show ?thesis by simp
  next
    case False
    then have "sent_lengths st' = sent_lengths st"
      by (simp add: sent_lengths_def tx)
    with False eff assms(2) show ?thesis by simp
  qed
qed

lemma run_credits_sent_lengths:
  "run_credits verbose wr c0 cs c \<Longrightarrow> conserved (snd c0)
     \<Longrightarrow> sent_lengths (snd c0) = pending_lengths (snd c0)
     \<Longrightarrow> sent_lengths (snd c) = cs @ pending_lengths (snd c)"
proof (induction rule: run_credits.induct)
  case start
  then show ?case by simp
next
  case (step cs c c')
  have c: "conserved (snd c)"
    using reaches_conserved [OF run_credits_reaches [OF step.hyps(1)] step.prems(1)] .
  have ih: "sent_lengths (snd c) = cs @ pending_lengths (snd c)"
    using step by simp
  have n: "next_config verbose wr (fst c, snd c) = Some (fst c', snd c')"
    using step.hyps(2) by simp
  show ?case
  proof (cases "is_ack verbose c")
    case True
    then have a: "is_ack verbose (fst c, snd c)" by simp
    note k = next_config_ack [OF c n a]
    from k(2) have "sent_lengths (snd c') = sent_lengths (snd c)"
      by (simp add: sent_lengths_def)
    with ih k(1) True show ?thesis
      by (simp add: credit_of_def)
  next
    case False
    then have a: "\<not> is_ack verbose (fst c, snd c)" by simp
    from next_config_no_ack [OF c n a] show ?thesis
    proof
      assume "unchanged (snd c) (snd c')"
      with ih False show ?thesis
        by (simp add: unchanged_def sent_lengths_def credit_of_def)
    next
      assume "wrote (snd c) (snd c')"
      with ih False show ?thesis
        using wrote_sent_lengths [of "snd c" "snd c'" cs] by (simp add: credit_of_def)
    qed
  qed
qed

lemma run_credits_step_fill:
  "run_credits verbose wr c0 cs (Filling, st) \<Longrightarrow> next_config verbose wr (Filling, st) = Some c'
     \<Longrightarrow> run_credits verbose wr c0 cs c'"
  using run_credits.step [of verbose wr c0 cs "(Filling, st)" c']
  by (simp add: credit_of_def is_ack_def)

lemma run_credits_fill:
  "run_credits verbose wr c0 cs (Filling, st)
     \<Longrightarrow> run_credits verbose wr c0 cs (Awaiting, fill_loop verbose wr st)"
proof (induction verbose wr st rule: fill_loop.induct)
  case (1 verbose wr st)
  show ?case
  proof (cases "available st > 0")
    case False
    then have "next_config verbose wr (Filling, st) = Some (Awaiting, fill_loop verbose wr st)"
      by (simp add: fill_loop.simps [of verbose wr st])
    with "1.prems" show ?thesis by (rule run_credits_step_fill)
  next
    case True
    obtain f r where g: "getline (gcode_file st) = (f, r)" by force
    show ?thesis
    proof (cases r)
      case None
      with True g have "next_config verbose wr (Filling, st) = Some (Awaiting, fill_loop verbose wr st)"
        by (simp add: fill_loop.simps [of verbose wr st])
      with "1.prems" show ?thesis by (rule run_credits_step_fill)
    next
      case (Some raw)
      obtain fl s where b: "fill_body verbose wr (st\<lparr>gcode_file := f\<rparr>) raw = (fl, s)"
        by force
      show ?thesis
      proof (cases "fl = Continue")
        case True
        from True \<open>available st > 0\<close> g Some b
        have n: "next_config verbose wr (Filling, st) = Some (Filling, s)"
          and e: "fill_loop verbose wr st = fill_loop verbose wr s"
          by (simp_all add: fill_loop.simps [of verbose wr st])
        have "run_credits verbose wr c0 cs (Filling, s)"
          using "1.prems" n by (rule run_credits_step_fill)
        then show ?thesis
          using "1.IH" [OF \<open>available st > 0\<close> g [symmetric] Some b [symmetric] True] e
          by simp
      next
        case False
        with \<open>available st > 0\<close> g Some b
        have "next_config verbose wr (Filling, st) = Some (Awaiting, fill_loop verbose wr st)"
          by (cases fl) (simp_all add: fill_loop.simps [of verbose wr st])
        with "1.prems" show ?thesis by (rule run_credits_step_fill)
      qed
    qed
  qed
qed

text \<open>
  C6. At every point of every run, the lengths of the commands sent so far, in the order of
  sending, are the credits of the acknowledgments read so far, in the order of reading,
  followed by the lengths still in the queue. So the credits are a prefix of the lengths
  sent: if \<open>L1, L2, L3\<close> were sent in that order and three acknowledgments have been read,
  the lengths credited are \<open>L1, L2, L3\<close> in that order. And when \<open>k\<close> acknowledgments have
  been read and the loop waits, a response that passes the \<open>ok\<close> test, whatever else its
  text contains, adds to \<open>available\<close> the length of the command sent at position \<open>k\<close>
  (counted from zero).
\<close>

theorem fifo_acknowledgment:
  assumes "run_credits verbose wr (Filling, init_state bytes rx) cs (ph, st)"
  shows "sent_lengths st = cs @ pending_lengths st
    \<and> (is_ack verbose (ph, st)
       \<longrightarrow> length cs < length (sent_lengths st)
         \<and> available (snd (await_response verbose st))
             = available st + int (sent_lengths st ! length cs))"
proof -
  let ?c0 = "(Filling, init_state bytes rx)"
  have i: "sent_lengths (snd ?c0) = pending_lengths (snd ?c0)"
    by (simp add: sent_lengths_def init_state_def)
  have s: "sent_lengths st = cs @ pending_lengths st"
    using run_credits_sent_lengths [OF assms] i by (simp add: init_state_conserved)
  have c: "conserved st"
    using reaches_conserved [OF run_credits_reaches [OF assms]]
    by (simp add: init_state_conserved)
  have "length cs < length (sent_lengths st)
      \<and> available (snd (await_response verbose st))
          = available st + int (sent_lengths st ! length cs)"
    if a: "is_ack verbose (ph, st)"
  proof -
    from a have ne: "pending_lengths st \<noteq> []"
      by (simp add: is_ack_def)
    from a obtain response perr rx'
      where r: "readSerialLine (serial_rx st) verbose = Some (response, perr, rx')"
        and ok: "is_ok response"
      by (auto simp: is_ack_def split: option.splits)
    obtain len rest where p: "pending_lengths st = len # rest"
      using ne by (cases "pending_lengths st") auto
    obtain fl st' where aw: "await_response verbose st = (fl, st')" by force
    note e = await_response_ok [OF c p r ok aw]
    from s p have "sent_lengths st ! length cs = len" and "length cs < length (sent_lengths st)"
      by simp_all
    with e(1) aw show ?thesis by simp
  qed
  with s show ?thesis by blast
qed

text \<open>
  An instance: three commands of wire lengths 3, 4 and 5, answered by \<open>ok\<close>, \<open>OK 2\<close> and
  \<open>[ok]\<close>. After two acknowledgments, with credits 3 and 4, the loop waits in the state
  below; the third response credits 5, the length of the third command.
\<close>

definition fifo_example :: loop_state where
  "fifo_example =
     \<lparr>gcode_file = \<lparr>content = ''G1'' @ [NL] @ ''G21'' @ [NL] @ ''G1 X'' @ [NL],
                     pos = 12, eofbit = True, failbit = True\<rparr>,
      available = 122, pending_lengths = [5], return_code = 0,
      serial_rx = responses [''[ok]''],
      serial_tx = [(''G1'' @ [NL], 3), (''G21'' @ [NL], 4), (''G1 X'' @ [NL], 5)],
      cout_text = [], cerr_text = []\<rparr>"

theorem fifo_acknowledgment_witness:
  "run_credits False write_all
     (Filling, init_state (''G1'' @ [NL] @ ''G21'' @ [NL] @ ''G1 X'' @ [NL])
        (responses [''ok'', ''OK 2'', ''[ok]'']))
     [3, 4] (Awaiting, fifo_example)
   \<and> is_ack False (Awaiting, fifo_example)
   \<and> sent_lengths fifo_example = [3, 4] @ [5]
   \<and> pending_lengths fifo_example = [5]
   \<and> available (snd (await_response False fifo_example)) = 122 + 5"
proof -
  let ?bytes = "''G1'' @ [NL] @ ''G21'' @ [NL] @ ''G1 X'' @ [NL]"
  let ?tx = "[(''G1'' @ [NL], 3), (''G21'' @ [NL], 4), (''G1 X'' @ [NL], 5)]"
  let ?f = "\<lparr>content = ?bytes, pos = 12, eofbit = True, failbit = True\<rparr>"
  let ?c0 = "(Filling, init_state ?bytes (responses [''ok'', ''OK 2'', ''[ok]'']))"
  let ?a = "\<lparr>gcode_file = ?f, available = 115, pending_lengths = [3, 4, 5], return_code = 0,
      serial_rx = responses [''ok'', ''OK 2'', ''[ok]''], serial_tx = ?tx,
      cout_text = [], cerr_text = []\<rparr>"
  let ?a1 = "\<lparr>gcode_file = ?f, available = 118, pending_lengths = [4, 5], return_code = 0,
      serial_rx = responses [''OK 2'', ''[ok]''], serial_tx = ?tx,
      cout_text = [], cerr_text = []\<rparr>"
  have ok1: "is_ok (''ok'' @ [NL])" and ok2: "is_ok (''OK 2'' @ [NL])"
    and ok3: "is_ok (''[ok]'' @ [NL])"
    by (simp_all add: is_ok_def trim_response_def tolower_def is_ws_def char_of_def bit_simps)
  have "fill_loop False write_all (snd ?c0) = ?a"
    by (simp add: run_defs fill_loop.simps)
  then have r1: "run_credits False write_all ?c0 [] (Awaiting, ?a)"
    using run_credits_fill [OF run_credits.start, of False write_all "snd ?c0"] by simp
  have n1: "next_config False write_all (Awaiting, ?a) = Some (Filling, ?a1)"
    by (simp add: run_defs)
  have k1: "credit_of False (Awaiting, ?a) (Filling, ?a1) = [3]"
    using ok1 by (simp add: credit_of_def is_ack_def readSerialLine_def responses_def)
  have r2: "run_credits False write_all ?c0 [3] (Filling, ?a1)"
    using run_credits.step [OF r1 n1] k1 by simp
  have "fill_loop False write_all ?a1 = ?a1"
    by (simp add: run_defs fill_loop.simps)
  then have r3: "run_credits False write_all ?c0 [3] (Awaiting, ?a1)"
    using run_credits_fill [OF r2] by simp
  have n2: "next_config False write_all (Awaiting, ?a1) = Some (Filling, fifo_example)"
    using ok2 by (simp add: fifo_example_def await_response_def readSerialLine_def
        responses_def credit_def say_def size_t_of_int_def size_t_add_def int_of_size_t_def Let_def)
  have k2: "credit_of False (Awaiting, ?a1) (Filling, fifo_example) = [4]"
    using ok2 by (simp add: credit_of_def is_ack_def readSerialLine_def responses_def
        fifo_example_def)
  have r4: "run_credits False write_all ?c0 [3, 4] (Filling, fifo_example)"
    using run_credits.step [OF r3 n2] k2 by simp
  have "fill_loop False write_all fifo_example = fifo_example"
    by (simp add: run_defs fill_loop.simps fifo_example_def)
  then have r5: "run_credits False write_all ?c0 [3, 4] (Awaiting, fifo_example)"
    using run_credits_fill [OF r4] by simp
  have a: "is_ack False (Awaiting, fifo_example)"
    using ok3 by (simp add: is_ack_def fifo_example_def readSerialLine_def responses_def)
  have s: "sent_lengths fifo_example = [3, 4, 5]" and p: "pending_lengths fifo_example = [5]"
    and v: "available fifo_example = 122"
    by (simp_all add: sent_lengths_def fifo_example_def)
  from fifo_acknowledgment [OF r5] r5 a s p v show ?thesis
    by simp
qed

section \<open>Holding a line back\<close>

lemma send_or_hold_hold:
  assumes "conserved st" and "available st < int (length line + 1)"
  shows "send_or_hold verbose wr st line
    = (Break, st\<lparr>gcode_file := seekg_cur (gcode_file st) (- int (length line + 1))\<rparr>)"
proof -
  from assms(1) have "0 \<le> available st" "available st < 2 ^ 31"
    using conserved_bounds [of st] by auto
  then have "size_t_of_int (available st) = nat (available st)"
    by (rule size_t_of_int_nonneg)
  with assms(2) have "length line + 1 > size_t_of_int (available st)"
    by simp
  then show ?thesis
    by (simp add: send_or_hold_def)
qed

lemma getline_SomeD:
  assumes "getline f = (f', Some raw)"
  shows "\<not> eofbit f" and "\<not> failbit f"
    and "raw = takeWhile (\<lambda>c. c \<noteq> NL) (drop (pos f) (content f))"
    and "\<not> eofbit f' \<Longrightarrow> f' = f\<lparr>pos := pos f + length raw + 1\<rparr>"
  using assms by (auto simp: getline_def Let_def split: if_splits)

lemma seekg_cur_back:
  assumes "\<not> eofbit f" and "\<not> failbit f"
  shows "seekg_cur (f\<lparr>pos := pos f + n\<rparr>) (- int n) = f"
  using assms by (simp add: seekg_cur_def)

lemma fill_loop_Break:
  assumes "0 < available st" and "getline (gcode_file st) = (f', Some raw)"
    and "fill_body verbose wr (st\<lparr>gcode_file := f'\<rparr>) raw = (Break, st')"
  shows "fill_loop verbose wr st = st'"
  using assms by (simp add: fill_loop.simps [of verbose wr st])

lemma fill_loop_hold:
  assumes "conserved st" and "0 < available st"
    and "getline (gcode_file st) = (f', Some raw)" and "\<not> eofbit f'"
    and "clean_line raw = Some raw"
    and "available st < int (length raw + 1)"
  shows "fill_loop verbose wr st = st"
proof -
  note g = getline_SomeD [OF assms(3)]
  have f': "f' = (gcode_file st)\<lparr>pos := pos (gcode_file st) + (length raw + 1)\<rparr>"
    using g(4) [OF assms(4)] by simp
  have c: "conserved (st\<lparr>gcode_file := f'\<rparr>)"
    using assms(1) by (simp add: conserved_def)
  have "seekg_cur f' (- int (length raw + 1)) = gcode_file st"
    unfolding f' using g(1,2) by (rule seekg_cur_back)
  then have "send_or_hold verbose wr (st\<lparr>gcode_file := f'\<rparr>) raw = (Break, st)"
    using send_or_hold_hold [OF c, of raw verbose wr] assms(6) by simp
  then have "fill_body verbose wr (st\<lparr>gcode_file := f'\<rparr>) raw = (Break, st)"
    using assms(5) by (simp add: fill_body_def)
  then show ?thesis
    using fill_loop_Break [OF assms(2,3)] by simp
qed

text \<open>
  So a line that is its own record and ends in a newline is put back exactly. The rewind
  is by the length of the cleaned record, though, not by the length of the raw line.
\<close>

text \<open>A line of \<open>n\<close> letters \<open>X\<close>, to fill the buffer in examples.\<close>

definition long_line :: "nat \<Rightarrow> string" where
  "long_line n = replicate n CHR ''X''"

lemma long_line_simps [simp]:
  "length (long_line n) = n"
  "long_line n = [] \<longleftrightarrow> n = 0"
  "drop k (long_line n) = long_line (n - k)"
  "long_line 0 = []"
  by (simp_all add: long_line_def)

lemma takeWhile_long_line [simp]:
  "takeWhile (\<lambda>c. c \<noteq> NL) (long_line n @ ys) = long_line n @ takeWhile (\<lambda>c. c \<noteq> NL) ys"
  by (induction n) (simp_all add: long_line_def)

lemma clean_line_long_line: "0 < n \<Longrightarrow> clean_line (long_line n) = Some (long_line n)"
  by (simp add: clean_line_eq command_record_def long_line_def is_ws_def)

lemma clean_line_long_line_ws:
  assumes "0 < n" and "list_all is_ws ws"
  shows "clean_line (long_line n @ ws) = Some (long_line n)"
proof -
  have semi: "CHR '';'' \<notin> set ws"
    using assms(2) by (auto simp: list_all_iff is_ws_def)
  have t: "takeWhile (\<lambda>c. c \<noteq> CHR '';'') (long_line n @ ws) = long_line n @ ws"
    unfolding takeWhile_eq_all_conv using semi by (auto simp: long_line_def)
  have "dropWhile is_ws (rev ws @ long_line n) = dropWhile is_ws (long_line n)"
    using assms(2) by (intro dropWhile_append2) (auto simp: list_all_iff)
  then have d: "dropWhile is_ws (rev ws @ long_line n) = long_line n"
    using assms(1) by (simp add: long_line_def is_ws_def)
  have r: "rev (long_line n) = long_line n"
    by (simp add: long_line_def)
  show ?thesis
    unfolding clean_line_eq command_record_def Let_def t rev_append r d
    using assms(1) by simp
qed

lemmas step_defs =
  init_state_def open_file_def getline_def seekg_cur_def fill_body_def
  send_or_hold_def say_def await_response_def readSerialLine_def credit_def is_ok_def
  trim_response_def tolower_def is_ws_def size_t_of_int_def int_of_size_t_def size_t_sub_def
  size_t_add_def RX_BUFFER_SIZE_def write_all_def responses_def Let_def

text \<open>
  C4, the code at the failing inputs. A first command of wire length 123 leaves 4 bytes, so
  the next record, \<open>G1 X1\<close> of wire length 6, is held back. Its raw line carries a comment:
  the rewind by 6 lands inside the raw line of 16 bytes, the record \<open>G1 X1\<close> is never
  sent, and after the acknowledgment the tail \<open>mment\<close> of the comment is sent as a command.
  The same happens in a file with CRLF line ends: the raw line \<open>G1 X1\<close> followed by CR is
  one byte longer than its record, and what is sent on the retry is \<open>1 X1\<close>.
\<close>

theorem held_back_line_corrupted:
  "stream False write_all (long_line 122 @ [NL] @ ''G1 X1 ; comment'' @ [NL])
       (responses [''ok'', ''ok''])
     = (Break,
        \<lparr>gcode_file = \<lparr>content = long_line 122 @ [NL] @ ''G1 X1 ; comment'' @ [NL],
                        pos = 139, eofbit = True, failbit = True\<rparr>,
         available = 127, pending_lengths = [], return_code = 0, serial_rx = [],
         serial_tx = [(long_line 122 @ [NL], 123), (''mment'' @ [NL], 6)],
         cout_text = [], cerr_text = []\<rparr>)
   \<and> stream False write_all (long_line 122 @ [CR, NL] @ ''G1 X1'' @ [CR, NL])
       (responses [''ok'', ''ok''])
     = (Break,
        \<lparr>gcode_file = \<lparr>content = long_line 122 @ [CR, NL] @ ''G1 X1'' @ [CR, NL],
                        pos = 131, eofbit = True, failbit = True\<rparr>,
         available = 127, pending_lengths = [], return_code = 0, serial_rx = [],
         serial_tx = [(long_line 122 @ [NL], 123), (''1 X1'' @ [NL], 5)],
         cout_text = [], cerr_text = []\<rparr>)"
proof -
  have c1: "clean_line ''G1 X1 ; comment'' = Some ''G1 X1''"
    and c2: "clean_line ''mment'' = Some ''mment''"
    and c3: "clean_line (''G1 X1'' @ [CR]) = Some ''G1 X1''"
    and c4: "clean_line (''1 X1'' @ [CR]) = Some ''1 X1''"
    by (simp_all add: clean_line_eq command_record_def is_ws_def)
  have c5: "clean_line (long_line 122 @ [CR]) = Some (long_line 122)"
    by (rule clean_line_long_line_ws) (simp_all add: is_ws_def)
  have "stream False write_all (long_line 122 @ [NL] @ ''G1 X1 ; comment'' @ [NL])
       (responses [''ok'', ''ok''])
     = (Break,
        \<lparr>gcode_file = \<lparr>content = long_line 122 @ [NL] @ ''G1 X1 ; comment'' @ [NL],
                        pos = 139, eofbit = True, failbit = True\<rparr>,
         available = 127, pending_lengths = [], return_code = 0, serial_rx = [],
         serial_tx = [(long_line 122 @ [NL], 123), (''mment'' @ [NL], 6)],
         cout_text = [], cerr_text = []\<rparr>)"
    by (simp add: stream_def main_loop.simps fill_loop.simps step_defs clean_line_long_line c1 c2)
  moreover have "stream False write_all (long_line 122 @ [CR, NL] @ ''G1 X1'' @ [CR, NL])
       (responses [''ok'', ''ok''])
     = (Break,
        \<lparr>gcode_file = \<lparr>content = long_line 122 @ [CR, NL] @ ''G1 X1'' @ [CR, NL],
                        pos = 131, eofbit = True, failbit = True\<rparr>,
         available = 127, pending_lengths = [], return_code = 0, serial_rx = [],
         serial_tx = [(long_line 122 @ [NL], 123), (''1 X1'' @ [NL], 5)],
         cout_text = [], cerr_text = []\<rparr>)"
    by (simp add: stream_def main_loop.simps fill_loop.simps step_defs
        c3 [simplified] c4 [simplified] c5)
  ultimately show ?thesis by simp
qed

section \<open>Commands larger than the buffer\<close>

text \<open>
  C3, the code at the failing inputs. The code has no test for a command larger than the
  buffer. In the first run the first command has wire length 128: it is held back, the
  queue is empty, so the loop is left by the test of line 273; nothing is written, nothing
  is reported, the command \<open>G1 X1\<close> after it is dropped as well, and \<open>main\<close> returns 0.
  In the second run the oversize line, 127 letters and a trailing blank, follows a short
  command: it is held back, the rewind by its cleaned length lands one byte into the raw
  line, and after the acknowledgment the last 126 letters of the oversize command are
  written as a command of their own; \<open>main\<close> returns 0.
\<close>

theorem oversize_dropped_silently:
  "stream False write_all (long_line 127 @ [NL] @ ''G1 X1'' @ [NL]) []
     = (Break,
        \<lparr>gcode_file = \<lparr>content = long_line 127 @ [NL] @ ''G1 X1'' @ [NL], pos = 0,
                        eofbit = False, failbit = False\<rparr>,
         available = 127, pending_lengths = [], return_code = 0, serial_rx = [],
         serial_tx = [], cout_text = [], cerr_text = []\<rparr>)
   \<and> stream False write_all (''G1'' @ [NL] @ long_line 127 @ '' '' @ [NL])
       (responses [''ok'', ''ok''])
     = (Break,
        \<lparr>gcode_file = \<lparr>content = ''G1'' @ [NL] @ long_line 127 @ '' '' @ [NL], pos = 132,
                        eofbit = True, failbit = True\<rparr>,
         available = 127, pending_lengths = [], return_code = 0, serial_rx = [],
         serial_tx = [(''G1'' @ [NL], 3), (long_line 126 @ [NL], 127)],
         cout_text = [], cerr_text = []\<rparr>)"
proof -
  have c1: "clean_line ''G1'' = Some ''G1''"
    by (simp add: clean_line_eq command_record_def is_ws_def)
  have c2: "clean_line (long_line 127 @ '' '') = Some (long_line 127)"
    and c3: "clean_line (long_line 126 @ '' '') = Some (long_line 126)"
    by (rule clean_line_long_line_ws; simp add: is_ws_def)+
  have "stream False write_all (long_line 127 @ [NL] @ ''G1 X1'' @ [NL]) []
     = (Break,
        \<lparr>gcode_file = \<lparr>content = long_line 127 @ [NL] @ ''G1 X1'' @ [NL], pos = 0,
                        eofbit = False, failbit = False\<rparr>,
         available = 127, pending_lengths = [], return_code = 0, serial_rx = [],
         serial_tx = [], cout_text = [], cerr_text = []\<rparr>)"
    by (simp add: stream_def main_loop.simps fill_loop.simps step_defs clean_line_long_line)
  moreover have "stream False write_all (''G1'' @ [NL] @ long_line 127 @ '' '' @ [NL])
       (responses [''ok'', ''ok''])
     = (Break,
        \<lparr>gcode_file = \<lparr>content = ''G1'' @ [NL] @ long_line 127 @ '' '' @ [NL], pos = 132,
                        eofbit = True, failbit = True\<rparr>,
         available = 127, pending_lengths = [], return_code = 0, serial_rx = [],
         serial_tx = [(''G1'' @ [NL], 3), (long_line 126 @ [NL], 127)],
         cout_text = [], cerr_text = []\<rparr>)"
    by (simp add: stream_def main_loop.simps fill_loop.simps step_defs c1 c2 c3)
  ultimately show ?thesis by simp
qed

section \<open>Termination\<close>

text \<open>
  The number of non-empty lines in a piece of the file: the characters other than newline
  that are followed by a newline or by the end. It bounds the number of commands the loop
  will still send.
\<close>

fun nonempty_lines :: "string \<Rightarrow> nat" where
  "nonempty_lines [] = 0"
| "nonempty_lines [c] = (if c = NL then 0 else 1)"
| "nonempty_lines (c # d # cs) = (if c \<noteq> NL \<and> d = NL then 1 else 0) + nonempty_lines (d # cs)"






lemma nonempty_lines_le_length: "nonempty_lines s \<le> length s"
  by (induction s rule: nonempty_lines.induct) auto
















end
